theory Spec2Isabelle
  imports Complex_Main "HOL-Library.Multiset"
begin

section \<open>JavaScript strings\<close>

text \<open>
  A JavaScript string is modelled as a \<^typ>\<open>string\<close>: one \<^typ>\<open>char\<close> per code unit,
  restricted to the code units \<open>0x00 .. 0xFF\<close>.  Numbers (IEEE doubles in the source) are
  modelled as \<^typ>\<open>real\<close>; \<open>NaN\<close> and the infinities are outside the model.
\<close>

definition js_space :: "char \<Rightarrow> bool" where
  \<comment> \<open>the class \<open>\s\<close>, which is also what \<open>trim\<close> removes\<close>
  "js_space c = (c \<in> set [CHR 0x09, CHR 0x0A, CHR 0x0B, CHR 0x0C, CHR 0x0D, CHR 0x20, CHR 0xA0])"

definition js_trim :: "string \<Rightarrow> string" where
  "js_trim s = rev (dropWhile js_space (rev (dropWhile js_space s)))"

function js_split_ws :: "string \<Rightarrow> string list" where
  \<comment> \<open>\<open>s.split(/\s+/)\<close>\<close>
  "js_split_ws s =
     (let field = takeWhile (\<lambda>c. \<not> js_space c) s;
          rest = dropWhile (\<lambda>c. \<not> js_space c) s
      in if rest = [] then [field] else field # js_split_ws (dropWhile js_space rest))"
  by pat_completeness auto
termination
proof (relation "measure length")
  show "wf (measure length)" by simp
next
  fix s :: string and field rest
  assume r: "rest = dropWhile (\<lambda>c. \<not> js_space c) s" and ne: "rest \<noteq> []"
  from ne obtain c cs where rc: "rest = c # cs" by (cases rest) auto
  from r rc have "dropWhile (\<lambda>c. \<not> js_space c) s = c # cs" by simp
  then have "js_space c" by (simp add: dropWhile_eq_Cons_conv)
  then have "length (dropWhile js_space rest) \<le> length cs"
    using rc by (simp add: length_dropWhile_le)
  moreover have "length rest \<le> length s" using r by (simp add: length_dropWhile_le)
  ultimately show "(dropWhile js_space rest, s) \<in> measure length" using rc by simp
qed

declare js_split_ws.simps [simp del]

fun js_join :: "string \<Rightarrow> string list \<Rightarrow> string" where
  "js_join sep [] = []"
| "js_join sep [x] = x"
| "js_join sep (x # y # ys) = x @ sep @ js_join sep (y # ys)"

definition js_toLowerCase_char :: "char \<Rightarrow> char" where
  \<comment> \<open>\<open>toLowerCase\<close> on the code units \<open>0x00 .. 0xFF\<close>: \<open>A-Z\<close> and the Latin-1 capitals\<close>
  "js_toLowerCase_char c =
     (let n = (of_char c :: nat)
      in if (65 \<le> n \<and> n \<le> 90) \<or> (192 \<le> n \<and> n \<le> 222 \<and> n \<noteq> 215) then char_of (n + 32) else c)"

definition js_toLowerCase :: "string \<Rightarrow> string" where
  "js_toLowerCase s = map js_toLowerCase_char s"

fun js_includes :: "string \<Rightarrow> string \<Rightarrow> bool" where
  \<comment> \<open>\<open>s.includes(sub)\<close>\<close>
  "js_includes [] sub = (sub = [])"
| "js_includes (c # cs) sub = (take (length sub) (c # cs) = sub \<or> js_includes cs sub)"

fun js_split_char :: "char \<Rightarrow> string \<Rightarrow> string \<Rightarrow> string list" where
  \<comment> \<open>\<open>s.split(sep)\<close> for a one-character separator; the first argument after the separator
      is the field read so far\<close>
  "js_split_char sep cur [] = [cur]"
| "js_split_char sep cur (c # cs) =
     (if c = sep then cur # js_split_char sep [] cs else js_split_char sep (cur @ [c]) cs)"

definition js_dedupe :: "'a list \<Rightarrow> 'a list" where
  \<comment> \<open>\<open>[...new Set(xs)]\<close>: the first occurrence of each element, in order\<close>
  "js_dedupe xs = rev (remdups (rev xs))"

subsection \<open>The regular expressions of the query parsers\<close>

text \<open>
  The patterns are matched by hand-written matchers.  Under the flag \<open>i\<close> an ASCII letter of
  a pattern matches its two cases and nothing else.  In each pattern a greedy repetition is
  followed by something that none of the repeated characters matches, so the greedy choice is
  the only one that can succeed and the matchers do not backtrack.
\<close>

definition ascii_fold :: "char \<Rightarrow> char" where
  "ascii_fold c =
     (if (65::nat) \<le> of_char c \<and> of_char c \<le> (90::nat) then char_of (of_char c + (32::nat)) else c)"

definition prefix_ci :: "string \<Rightarrow> string \<Rightarrow> bool" where
  \<comment> \<open>the lower-case literal \<open>pat\<close> matches at the start of \<open>s\<close>, ignoring case\<close>
  "prefix_ci pat s = (map ascii_fold (take (length pat) s) = pat)"

fun regex_search :: "(string \<Rightarrow> 'a option) \<Rightarrow> string \<Rightarrow> 'a option" where
  \<comment> \<open>\<open>s.match(re)\<close> without the flag \<open>g\<close>: the match at the leftmost position where the
      anchored matcher succeeds\<close>
  "regex_search m [] = m []"
| "regex_search m (c # cs) = (case m (c # cs) of Some r \<Rightarrow> Some r | None \<Rightarrow> regex_search m cs)"

fun js_match_all :: "(string \<Rightarrow> string option) \<Rightarrow> nat \<Rightarrow> string \<Rightarrow> string list" where
  \<comment> \<open>\<open>s.match(re)\<close> with the flag \<open>g\<close>, for a pattern without empty matches: the matched
      texts from left to right, each search resuming where the last match ended (the number
      counts the characters of the last match still to skip)\<close>
  "js_match_all m k [] = []"
| "js_match_all m (Suc k) (c # cs) = js_match_all m k cs"
| "js_match_all m 0 (c # cs) =
     (case m (c # cs) of
        Some t \<Rightarrow> t # js_match_all m (length t - 1) cs
      | None \<Rightarrow> js_match_all m 0 cs)"

definition match_word :: "string \<Rightarrow> string \<Rightarrow> unit option" where
  \<comment> \<open>\<open>/word/i\<close>, anchored\<close>
  "match_word w s = (if prefix_ci w s then Some () else None)"

definition match_two_words :: "string \<Rightarrow> string \<Rightarrow> string \<Rightarrow> unit option" where
  \<comment> \<open>\<open>/w1\s*w2/i\<close>, anchored\<close>
  "match_two_words w1 w2 s =
     (if prefix_ci w1 s \<and> prefix_ci w2 (dropWhile js_space (drop (length w1) s))
      then Some () else None)"

definition is_digit :: "char \<Rightarrow> bool" where
  "is_digit c = ((48::nat) \<le> of_char c \<and> of_char c \<le> (57::nat))"

definition parseInt10 :: "string \<Rightarrow> int" where
  \<comment> \<open>\<open>parseInt(ds, 10)\<close> on a non-empty string of decimal digits\<close>
  "parseInt10 ds = fold (\<lambda>c n. 10 * n + (int (of_char c) - 48)) ds 0"

definition match_ago :: "string \<Rightarrow> string \<Rightarrow> int option" where
  \<comment> \<open>\<open>/(\d+)\s*units?\s*ago/i\<close>, anchored; the result is \<open>parseInt\<close> of the group\<close>
  "match_ago unit s =
     (let ds = takeWhile is_digit s;
          r1 = dropWhile js_space (dropWhile is_digit s)
      in if ds = [] \<or> \<not> prefix_ci unit r1 then None
         else
           let r2 = drop (length unit) r1;
               r3 = (if prefix_ci ''s'' r2 then drop 1 r2 else r2)
           in if prefix_ci ''ago'' (dropWhile js_space r3) then Some (parseInt10 ds) else None)"

definition file_keyword :: "string \<Rightarrow> nat option" where
  \<comment> \<open>\<open>(?:in|from|file[s]?)\<close>, anchored: the length of the keyword matched\<close>
  "file_keyword s =
     (if prefix_ci ''in'' s then Some 2
      else if prefix_ci ''from'' s then Some 4
      else if prefix_ci ''files'' s then Some 5
      else if prefix_ci ''file'' s then Some 4
      else None)"

definition match_file_phrase :: "string \<Rightarrow> string option" where
  \<comment> \<open>\<open>/(?:in|from|file[s]?)\s+([^\s,]+(?:\.[a-z]+)?)/i\<close>, anchored: the matched text.  The
      group \<open>[^\s,]+\<close> takes every character up to the next white space or comma, which
      leaves nothing for the optional extension to match\<close>
  "match_file_phrase s =
     (case file_keyword s of
        None \<Rightarrow> None
      | Some n \<Rightarrow>
          let ws = takeWhile js_space (drop n s);
              tok = takeWhile (\<lambda>c. \<not> js_space c \<and> c \<noteq> CHR '','') (dropWhile js_space (drop n s))
          in if ws = [] \<or> tok = [] then None else Some (take n s @ ws @ tok))"

section \<open>Arrays and maps\<close>

fun insert_by :: "('a \<Rightarrow> 'a \<Rightarrow> real) \<Rightarrow> 'a \<Rightarrow> 'a list \<Rightarrow> 'a list" where
  "insert_by cmp x [] = [x]"
| "insert_by cmp x (y # ys) = (if cmp x y \<le> 0 then x # y # ys else y # insert_by cmp x ys)"

definition js_sort :: "('a \<Rightarrow> 'a \<Rightarrow> real) \<Rightarrow> 'a list \<Rightarrow> 'a list" where
  \<comment> \<open>\<open>xs.sort(cmp)\<close> for a consistent comparator: \<open>Array.prototype.sort\<close> is stable; the
      elements are inserted from the right, so that each one lands before the elements it does
      not compare greater than\<close>
  "js_sort cmp xs = foldr (insert_by cmp) xs []"

text \<open>
  ECMAScript fixes what \<open>Array.prototype.sort\<close> returns only for a comparator that is
  consistent on the elements of the array: reflexive and symmetric where it answers \<open>0\<close>, and
  transitive in each of its three answers.  Then the result is the stable sort.  For any other
  comparator the order is implementation-defined: it is what the sort of the host returns, a
  parameter of the model, of which only a permutation of the array can be expected.
\<close>

definition consistent_on :: "('a \<Rightarrow> 'a \<Rightarrow> real) \<Rightarrow> 'a list \<Rightarrow> bool" where
  "consistent_on cmp xs =
     (\<forall>a \<in> set xs. cmp a a = 0 \<and>
        (\<forall>b \<in> set xs. (cmp a b = 0 \<longrightarrow> cmp b a = 0) \<and>
           (\<forall>c \<in> set xs.
              (cmp a b = 0 \<and> cmp b c = 0 \<longrightarrow> cmp a c = 0) \<and>
              (cmp a b < 0 \<and> cmp b c < 0 \<longrightarrow> cmp a c < 0) \<and>
              (cmp a b > 0 \<and> cmp b c > 0 \<longrightarrow> cmp a c > 0))))"

definition js_array_sort ::
  "(('a \<Rightarrow> 'a \<Rightarrow> real) \<Rightarrow> 'a list \<Rightarrow> 'a list) \<Rightarrow> ('a \<Rightarrow> 'a \<Rightarrow> real) \<Rightarrow> 'a list \<Rightarrow> 'a list" where
  \<comment> \<open>\<open>xs.sort(cmp)\<close> for any comparator, on a host whose sort is \<open>host\<close>\<close>
  "js_array_sort host cmp xs = (if consistent_on cmp xs then js_sort cmp xs else host cmp xs)"

definition sort_permutes :: "(('a \<Rightarrow> 'a \<Rightarrow> real) \<Rightarrow> 'a list \<Rightarrow> 'a list) \<Rightarrow> bool" where
  \<comment> \<open>the sort of the host returns the elements it was given, in some order\<close>
  "sort_permutes host = (\<forall>cmp xs. mset (host cmp xs) = mset xs)"

text \<open>
  The host of the examples sorts as V8 sorts an array of fewer than 64 elements: it takes the
  run at the start of the array, reversed when it descends strictly, and inserts every further
  element at the place a binary search finds for it.
\<close>

fun run_length :: "('a \<Rightarrow> 'a \<Rightarrow> real) \<Rightarrow> bool \<Rightarrow> 'a \<Rightarrow> 'a list \<Rightarrow> nat" where
  \<comment> \<open>how many further elements continue the run that ends with \<open>previous\<close>\<close>
  "run_length cmp descending previous [] = 0"
| "run_length cmp descending previous (x # xs) =
     (let order = cmp x previous
      in if (if descending then order \<ge> 0 else order < 0) then 0
         else Suc (run_length cmp descending x xs))"

definition count_and_make_run :: "('a \<Rightarrow> 'a \<Rightarrow> real) \<Rightarrow> 'a list \<Rightarrow> nat \<times> 'a list" where
  \<comment> \<open>the length of the run at the start of an array of two elements or more, and the array
      with that run ascending\<close>
  "count_and_make_run cmp xs =
     (case xs of
        x0 # x1 # rest \<Rightarrow>
          (let descending = (cmp x1 x0 < 0);
               n = 2 + run_length cmp descending x1 rest
           in (n, if descending then rev (take n xs) @ drop n xs else xs))
      | _ \<Rightarrow> (length xs, xs))"

function insertion_point :: "('a \<Rightarrow> 'a \<Rightarrow> real) \<Rightarrow> 'a \<Rightarrow> 'a list \<Rightarrow> nat \<Rightarrow> nat \<Rightarrow> nat" where
  \<comment> \<open>the binary search for the place of \<open>pivot\<close> among \<open>ys\<close> between \<open>left\<close> and \<open>right\<close>\<close>
  "insertion_point cmp pivot ys left right =
     (if left < right
      then (let mid = left + (right - left) div 2
            in if cmp pivot (ys ! mid) < 0 then insertion_point cmp pivot ys left mid
               else insertion_point cmp pivot ys (mid + 1) right)
      else left)"
  by pat_completeness auto
termination
  by (relation "measure (\<lambda>(cmp, pivot, ys, left, right). right - left)") auto

fun binary_insertion :: "('a \<Rightarrow> 'a \<Rightarrow> real) \<Rightarrow> 'a list \<Rightarrow> 'a list \<Rightarrow> 'a list" where
  "binary_insertion cmp run [] = run"
| "binary_insertion cmp run (pivot # rest) =
     (let k = insertion_point cmp pivot run 0 (length run)
      in binary_insertion cmp (take k run @ pivot # drop k run) rest)"

definition short_array_sort :: "('a \<Rightarrow> 'a \<Rightarrow> real) \<Rightarrow> 'a list \<Rightarrow> 'a list" where
  "short_array_sort cmp xs =
     (if length xs < 2 then xs
      else let (n, ys) = count_and_make_run cmp xs
           in binary_insertion cmp (take n ys) (drop n ys))"

declare insertion_point.simps [simp del]


fun forEach_index :: "(nat \<Rightarrow> 'a \<Rightarrow> 's \<Rightarrow> 's) \<Rightarrow> 'a list \<Rightarrow> nat \<Rightarrow> 's \<Rightarrow> 's" where
  \<comment> \<open>\<open>xs.forEach((x, index) => ...)\<close> threading the state the callback mutates\<close>
  "forEach_index f [] i s = s"
| "forEach_index f (x # xs) i s = forEach_index f xs (Suc i) (f i x s)"

fun map_set :: "'k \<Rightarrow> 'v \<Rightarrow> ('k \<times> 'v) list \<Rightarrow> ('k \<times> 'v) list" where
  \<comment> \<open>\<open>Map.prototype.set\<close>: a \<open>Map\<close> iterates in insertion order, and setting a key that is
      present keeps its position\<close>
  "map_set k v [] = [(k, v)]"
| "map_set k v ((k', v') # m) = (if k' = k then (k, v) # m else (k', v') # map_set k v m)"

definition js_new_Map :: "('k \<times> 'v) list \<Rightarrow> ('k \<times> 'v) list" where
  \<comment> \<open>\<open>new Map(entries)\<close>\<close>
  "js_new_Map entries = fold (\<lambda>(k, v) m. map_set k v m) entries []"

definition js_math_min :: "real list \<Rightarrow> real" where
  \<comment> \<open>\<open>Math.min(...xs)\<close> on a non-empty list\<close>
  "js_math_min xs = fold min (tl xs) (hd xs)"

definition js_math_max :: "real list \<Rightarrow> real" where
  "js_math_max xs = fold max (tl xs) (hd xs)"

section \<open>Data model\<close>

record ChangeRecord =
  c_id :: string
  timestamp :: real
  filePath :: string
  symbols :: "string list"
  diff :: string
  summary :: "string option"

record VectorSearchResult =
  v_id :: string
  v_changeId :: string
  v_score :: real
  distance :: real

record KeywordResult =
  change :: ChangeRecord
  rank :: real

record HybridSearchParams =
  vectorWeight :: real
  keywordWeight :: real
  rerankTopK :: nat

record RankedResult =
  changeId :: string
  vectorRank :: "nat option"
  keywordRank :: "nat option"
  vectorScore :: "real option"
  keywordScore :: "real option"
  normalizedVectorScore :: "real option"
  normalizedKeywordScore :: "real option"
  rrfScore :: real
  rerankerScore :: "real option"

record ScoreEntry =
  s_id :: string
  s_score :: real

record NormalizedEntry =
  n_id :: string
  n_score :: real
  normalizedScore :: real

record NormalizedScores =
  results :: "NormalizedEntry list"
  n_min :: real
  n_max :: real

subsection \<open>SEARCH_DEFAULTS and RERANKER_DEFAULTS\<close>

definition VECTOR_WEIGHT :: real where "VECTOR_WEIGHT = 6 / 10"
definition KEYWORD_WEIGHT :: real where "KEYWORD_WEIGHT = 4 / 10"
definition RRF_K :: real where "RRF_K = 60"
definition RERANK_TOP_K :: nat where "RERANK_TOP_K = 50"
definition MAX_RESULTS :: nat where "MAX_RESULTS = 20"
definition MIN_VECTOR_SCORE :: real where "MIN_VECTOR_SCORE = 3 / 10"
definition MIN_KEYWORD_SCORE :: real where "MIN_KEYWORD_SCORE = 1 / 10"
definition TOP_K :: nat where "TOP_K = 10"

section \<open>Score normalizer\<close>

definition normalizeScores :: "ScoreEntry list \<Rightarrow> real \<Rightarrow> NormalizedScores" where
  "normalizeScores rs minThreshold =
     (if length rs = 0 then \<lparr>results = [], n_min = 0, n_max = 0\<rparr>
      else
        let scores = map s_score rs;
            mn = js_math_min scores;
            mx = js_math_max scores;
            range = mx - mn;
            normalized = map (\<lambda>r. \<lparr>n_id = s_id r, n_score = s_score r,
                                     normalizedScore = (if range > 0 then (s_score r - mn) / range else 1)\<rparr>) rs;
            filtered = filter (\<lambda>r. normalizedScore r \<ge> minThreshold) normalized
        in \<lparr>results = filtered, n_min = mn, n_max = mx\<rparr>)"

section \<open>Rank fusion\<close>

type_synonym scoreMap = "(string \<times> RankedResult) list"

definition nullish_or :: "'a option \<Rightarrow> 'a \<Rightarrow> 'a" where
  \<comment> \<open>\<open>x ?? d\<close>\<close>
  "nullish_or x d = (case x of Some v \<Rightarrow> v | None \<Rightarrow> d)"

definition truthy_rank :: "nat option \<Rightarrow> bool" where
  \<comment> \<open>truthiness of an optional number: \<open>undefined\<close> and \<open>0\<close> are falsy\<close>
  "truthy_rank r = (case r of Some n \<Rightarrow> n \<noteq> 0 | None \<Rightarrow> False)"

definition vector_entry ::
  "HybridSearchParams \<Rightarrow> (string \<times> real) list \<Rightarrow> nat \<Rightarrow> VectorSearchResult \<Rightarrow> RankedResult" where
  \<comment> \<open>the object the vector loop stores for the result at \<open>index\<close>\<close>
  "vector_entry params normalizedVectorMap index result =
     (let rnk = index + 1;
          rrfContribution = vectorWeight params * (1 / (RRF_K + real rnk));
          normalizedScore = nullish_or (map_of normalizedVectorMap (v_changeId result)) 0
      in \<lparr>changeId = v_changeId result, vectorRank = Some rnk, keywordRank = None,
          vectorScore = Some (v_score result), keywordScore = None,
          normalizedVectorScore = Some normalizedScore, normalizedKeywordScore = None,
          rrfScore = rrfContribution, rerankerScore = None\<rparr>)"

definition vector_step ::
  "HybridSearchParams \<Rightarrow> (string \<times> real) list \<Rightarrow> nat \<Rightarrow> VectorSearchResult \<Rightarrow> scoreMap \<Rightarrow> scoreMap" where
  "vector_step params normalizedVectorMap index result scoreMap =
     map_set (v_changeId result) (vector_entry params normalizedVectorMap index result) scoreMap"

definition keyword_entry ::
  "HybridSearchParams \<Rightarrow> (string \<times> real) list \<Rightarrow> nat \<Rightarrow> KeywordResult \<Rightarrow> RankedResult option \<Rightarrow> RankedResult" where
  \<comment> \<open>the object the keyword loop leaves for the result at \<open>index\<close>: the \<open>existing\<close> one
      updated in place, or a new one\<close>
  "keyword_entry params normalizedKeywordMap index result existing =
     (let rnk = index + 1;
          rrfContribution = keywordWeight params * (1 / (RRF_K + real rnk));
          normalizedScore = nullish_or (map_of normalizedKeywordMap (c_id (change result))) 0
      in case existing of
           Some e \<Rightarrow>
             e\<lparr>keywordRank := Some rnk, keywordScore := Some \<bar>rank result\<bar>,
               normalizedKeywordScore := Some normalizedScore,
               rrfScore := rrfScore e + rrfContribution\<rparr>
         | None \<Rightarrow>
             \<lparr>changeId = c_id (change result), vectorRank = None, keywordRank = Some rnk,
              vectorScore = None, keywordScore = Some \<bar>rank result\<bar>,
              normalizedVectorScore = None, normalizedKeywordScore = Some normalizedScore,
              rrfScore = rrfContribution, rerankerScore = None\<rparr>)"

definition keyword_step ::
  "HybridSearchParams \<Rightarrow> (string \<times> real) list \<Rightarrow> nat \<Rightarrow> KeywordResult \<Rightarrow> scoreMap \<Rightarrow> scoreMap" where
  "keyword_step params normalizedKeywordMap index result scoreMap =
     map_set (c_id (change result))
       (keyword_entry params normalizedKeywordMap index result (map_of scoreMap (c_id (change result))))
       scoreMap"

definition normalizedMap :: "NormalizedScores \<Rightarrow> (string \<times> real) list" where
  \<comment> \<open>the lookup map from change id to normalized score\<close>
  "normalizedMap normalized = js_new_Map (map (\<lambda>r. (n_id r, normalizedScore r)) (results normalized))"

definition fusion_scoreMap ::
  "VectorSearchResult list \<Rightarrow> KeywordResult list \<Rightarrow> HybridSearchParams \<Rightarrow>
   NormalizedScores \<Rightarrow> NormalizedScores \<Rightarrow> scoreMap" where
  \<comment> \<open>the \<open>scoreMap\<close> of \<open>reciprocalRankFusion\<close> after both \<open>forEach\<close> loops\<close>
  "fusion_scoreMap vectorResults keywordResults params normalizedVector normalizedKeyword =
     (let normalizedVectorMap = normalizedMap normalizedVector;
          normalizedKeywordMap = normalizedMap normalizedKeyword;
          scoreMap1 = forEach_index (vector_step params normalizedVectorMap) vectorResults 0 [];
          scoreMap2 = forEach_index (keyword_step params normalizedKeywordMap) keywordResults 0 scoreMap1
      in scoreMap2)"

definition overlapBoost :: "RankedResult \<Rightarrow> real" where
  "overlapBoost result =
     1 + 0.2 * min 1 (nullish_or (normalizedVectorScore result) 0 * nullish_or (normalizedKeywordScore result) 0)"

definition boost_step :: "RankedResult \<Rightarrow> RankedResult" where
  "boost_step result =
     (if truthy_rank (vectorRank result) \<and> truthy_rank (keywordRank result)
      then result\<lparr>rrfScore := rrfScore result * overlapBoost result\<rparr>
      else result)"

definition reciprocalRankFusion ::
  "VectorSearchResult list \<Rightarrow> KeywordResult list \<Rightarrow> HybridSearchParams \<Rightarrow>
   NormalizedScores \<Rightarrow> NormalizedScores \<Rightarrow> RankedResult list" where
  "reciprocalRankFusion vectorResults keywordResults params normalizedVector normalizedKeyword =
     (let scoreMap = fusion_scoreMap vectorResults keywordResults params normalizedVector normalizedKeyword;
          boosted = map (\<lambda>(k, result). boost_step result) scoreMap
      in js_sort (\<lambda>a b. rrfScore b - rrfScore a) boosted)"

definition vectorEntries :: "VectorSearchResult list \<Rightarrow> ScoreEntry list" where
  \<comment> \<open>\<open>vectorResults.map(r => ({ id: r.changeId, score: r.score }))\<close>\<close>
  "vectorEntries vectorResults = map (\<lambda>r. \<lparr>s_id = v_changeId r, s_score = v_score r\<rparr>) vectorResults"

definition keywordEntries :: "KeywordResult list \<Rightarrow> ScoreEntry list" where
  \<comment> \<open>\<open>keywordResults.map(r => ({ id: r.change.id, score: r.rank }))\<close>\<close>
  "keywordEntries keywordResults = map (\<lambda>r. \<lparr>s_id = c_id (change r), s_score = rank r\<rparr>) keywordResults"

definition fuse_legs ::
  "VectorSearchResult list \<Rightarrow> KeywordResult list \<Rightarrow> HybridSearchParams \<Rightarrow> RankedResult list" where
  \<comment> \<open>the normalisation and fusion steps of \<open>search\<close>, from the two legs' results\<close>
  "fuse_legs vectorResults keywordResults hybridParams =
     (let normalizedVector = normalizeScores (vectorEntries vectorResults) MIN_VECTOR_SCORE;
          normalizedKeyword = normalizeScores (keywordEntries keywordResults) MIN_KEYWORD_SCORE
      in reciprocalRankFusion vectorResults keywordResults hybridParams normalizedVector normalizedKeyword)"

section \<open>Query enrichment\<close>

record TimeRange =
  t_start :: int
  t_end :: int

record SearchFilters =
  timeRange :: "TimeRange option"
  filePatterns :: "string list option"
  languages :: "string list option"
  eventTypes :: "string list option"
  f_symbols :: "string list option"
  branches :: "string list option"
  sessions :: "string list option"

definition ms_day :: int where "ms_day = 24 * 60 * 60 * 1000"
definition ms_week :: int where "ms_week = 7 * ms_day"
definition ms_month :: int where "ms_month = 30 * ms_day"

definition parseTimeExpression :: "int \<Rightarrow> string \<Rightarrow> TimeRange option" where
  \<comment> \<open>\<open>now\<close> is the value of \<open>Date.now()\<close>; the patterns are tried in the order of the table\<close>
  "parseTimeExpression now expr =
     (if regex_search (match_word ''today'') expr \<noteq> None
        then Some \<lparr>t_start = now - ms_day, t_end = now\<rparr>
      else if regex_search (match_word ''yesterday'') expr \<noteq> None
        then Some \<lparr>t_start = now - 2 * ms_day, t_end = now - ms_day\<rparr>
      else if regex_search (match_two_words ''this'' ''week'') expr \<noteq> None
        then Some \<lparr>t_start = now - ms_week, t_end = now\<rparr>
      else if regex_search (match_two_words ''last'' ''week'') expr \<noteq> None
        then Some \<lparr>t_start = now - 2 * ms_week, t_end = now - ms_week\<rparr>
      else if regex_search (match_two_words ''this'' ''month'') expr \<noteq> None
        then Some \<lparr>t_start = now - ms_month, t_end = now\<rparr>
      else if regex_search (match_two_words ''last'' ''month'') expr \<noteq> None
        then Some \<lparr>t_start = now - 2 * ms_month, t_end = now - ms_month\<rparr>
      else case regex_search (match_ago ''hour'') expr of
        Some hours \<Rightarrow> Some \<lparr>t_start = now - hours * 60 * 60 * 1000, t_end = now\<rparr>
      | None \<Rightarrow>
      (case regex_search (match_ago ''day'') expr of
        Some days \<Rightarrow> Some \<lparr>t_start = now - days * ms_day, t_end = now\<rparr>
      | None \<Rightarrow>
      (case regex_search (match_ago ''week'') expr of
        Some weeks \<Rightarrow> Some \<lparr>t_start = now - weeks * ms_week, t_end = now\<rparr>
      | None \<Rightarrow> None)))"

definition languageKeywords :: "(string \<times> string) list" where
  "languageKeywords =
     [(''typescript'', ''**/*.ts''), (''javascript'', ''**/*.js''), (''python'', ''**/*.py''),
      (''java'', ''**/*.java''), (''rust'', ''**/*.rs''), (''go'', ''**/*.go''),
      (''ruby'', ''**/*.rb''), (''php'', ''**/*.php''), (''css'', ''**/*.css''),
      (''html'', ''**/*.html'')]"

definition file_phrase_pattern :: "string \<Rightarrow> string list" where
  \<comment> \<open>the body of \<open>fileMatch.forEach\<close>: the patterns one matched text adds\<close>
  "file_phrase_pattern m =
     (let parts = js_split_ws m
      in if length parts > 1 then [''**/'' @ last parts @ ''*''] else [])"

definition extractFilePatterns :: "string \<Rightarrow> string list" where
  "extractFilePatterns query =
     js_dedupe
       (concat (map file_phrase_pattern (js_match_all match_file_phrase 0 query)) @
        concat (map (\<lambda>(keyword, pattern).
                       if js_includes (js_toLowerCase query) keyword then [pattern] else [])
                    languageKeywords))"

definition no_filters :: SearchFilters where
  \<comment> \<open>the object \<open>{}\<close>\<close>
  "no_filters = \<lparr>timeRange = None, filePatterns = None, languages = None, eventTypes = None,
                  f_symbols = None, branches = None, sessions = None\<rparr>"

definition enrichFilters :: "int \<Rightarrow> string \<Rightarrow> SearchFilters option \<Rightarrow> SearchFilters" where
  "enrichFilters now query filters =
     (let enriched = (case filters of None \<Rightarrow> no_filters | Some f \<Rightarrow> f);
          parsed = parseTimeExpression now query;
          enriched1 = (if parsed \<noteq> None \<and> timeRange enriched = None
                       then enriched\<lparr>timeRange := parsed\<rparr> else enriched);
          patterns = extractFilePatterns query
      in if length patterns > 0
         then enriched1\<lparr>filePatterns := Some (nullish_or (filePatterns enriched1) [] @ patterns)\<rparr>
         else enriched1)"

subsection \<open>Calendar days\<close>

definition local_day_start :: "int \<Rightarrow> int \<Rightarrow> int" where
  \<comment> \<open>the last local midnight at or before the instant \<open>t\<close>, in the time zone \<open>tz\<close>
      milliseconds ahead of UTC\<close>
  "local_day_start tz t = t - (t + tz) mod ms_day"

definition previous_calendar_day_spec :: "int \<Rightarrow> int \<Rightarrow> TimeRange" where
  \<comment> \<open>the specification's reading of "yesterday": the calendar day before the one of \<open>t\<close>,
      from its midnight to the next\<close>
  "previous_calendar_day_spec tz t =
     \<lparr>t_start = local_day_start tz t - ms_day, t_end = local_day_start tz t\<rparr>"

section \<open>The lexical query\<close>

definition fts_special :: "char \<Rightarrow> bool" where
  \<comment> \<open>the class \<open>['"*()^-]\<close>\<close>
  "fts_special c = (c \<in> set [CHR 0x27, CHR 0x22, CHR ''*'', CHR ''('', CHR '')'', CHR ''^'', CHR ''-''])"

definition fts_terms :: "string \<Rightarrow> string list" where
  \<comment> \<open>\<open>query.replace(/['"*()^-]/g, ' ').trim().split(/\s+/)\<close>\<close>
  "fts_terms query = js_split_ws (js_trim (map (\<lambda>c. if fts_special c then CHR '' '' else c) query))"

definition fts_prefix_term :: "string \<Rightarrow> string" where
  \<comment> \<open>the template \<open>"term"*\<close>\<close>
  "fts_prefix_term t = CHR 0x22 # t @ [CHR 0x22, CHR ''*'']"

definition prepareFTSQuery :: "string \<Rightarrow> string" where
  "prepareFTSQuery query =
     (let cleaned = js_join '' OR '' (map fts_prefix_term (filter (\<lambda>t. length t > 1) (fts_terms query)))
      in if cleaned = [] then query else cleaned)"


section \<open>The search engine and its collaborators\<close>

datatype error = Error string

record VectorRecord =
  vr_id :: string
  vr_changeId :: string
  vector :: "real list"

record RerankerDocument =
  d_id :: string
  d_text :: string
  originalScore :: "real option"

text \<open>
  The score of a \<open>RerankedResult\<close> is declared a number.  The search engine reads it as one; the
  reranker service stores there what it extracted from the answer of its backend, a JSON value,
  so the type of the score is a parameter of the record.
\<close>

record 's RerankedResult =
  rr_id :: string
  rr_score :: 's
  rr_originalScore :: "real option"

record SearchHighlight =
  h_field :: string
  snippet :: string
  matchedTerms :: "string list"

record SearchResult =
  sr_change :: ChangeRecord
  sr_score :: real
  sr_vectorScore :: "real option"
  sr_keywordScore :: "real option"
  highlights :: "SearchHighlight list option"

record SearchQuery =
  naturalLanguage :: string
  filters :: "SearchFilters option"
  hybridParams :: "HybridSearchParams option"

text \<open>
  The engine's collaborators are functions of the environment; a call that throws or
  rejects returns \<open>Inl\<close>.  \<open>now\<close> is what \<open>Date.now()\<close> returns while the query is parsed.
  The reranker is the injected service: \<open>reranker_isEnabled\<close> its \<open>isEnabled()\<close> and
  \<open>reranker_rerank\<close> its \<open>rerank\<close>, with scores of the declared type.  \<open>array_sort\<close> is the
  \<open>Array.prototype.sort\<close> of the host on a list of candidates, asked only where the comparator
  is not consistent.
\<close>

record env =
  workspaceId :: string
  now :: int
  embedQuery :: "string \<Rightarrow> error + real list"
  vectorStore_search :: "real list \<Rightarrow> nat \<Rightarrow> SearchFilters option \<Rightarrow> error + VectorSearchResult list"
  getVectorByChangeId :: "string \<Rightarrow> error + VectorRecord option"
  searchChanges :: "string \<Rightarrow> string \<Rightarrow> nat \<Rightarrow> error + KeywordResult list"
  getChange :: "string \<Rightarrow> error + ChangeRecord option"
  useReranker :: bool
  reranker_isEnabled :: bool
  reranker_rerank :: "string \<Rightarrow> RerankerDocument list \<Rightarrow> nat \<Rightarrow> error + real RerankedResult list"
  array_sort :: "(RankedResult \<Rightarrow> RankedResult \<Rightarrow> real) \<Rightarrow> RankedResult list \<Rightarrow> RankedResult list"

definition vectorSearch :: "env \<Rightarrow> string \<Rightarrow> nat \<Rightarrow> SearchFilters option \<Rightarrow> VectorSearchResult list" where
  "vectorSearch e query topK fs =
     (case embedQuery e query of
        Inl err \<Rightarrow> []
      | Inr queryVector \<Rightarrow>
          (case vectorStore_search e queryVector topK fs of
             Inl err \<Rightarrow> []
           | Inr rs \<Rightarrow> rs))"

definition keywordSearch :: "env \<Rightarrow> string \<Rightarrow> nat \<Rightarrow> KeywordResult list" where
  "keywordSearch e query topK =
     (let ftsQuery = prepareFTSQuery query
      in case searchChanges e (workspaceId e) ftsQuery topK of
           Inl err \<Rightarrow> []
         | Inr rs \<Rightarrow> rs)"

subsection \<open>Highlights\<close>

definition is_word_char :: "char \<Rightarrow> bool" where
  \<comment> \<open>the class \<open>\w\<close>\<close>
  "is_word_char c =
     (let n = (of_char c :: nat)
      in (48 \<le> n \<and> n \<le> 57) \<or> (65 \<le> n \<and> n \<le> 90) \<or> (97 \<le> n \<and> n \<le> 122) \<or> n = 95)"

definition extractQueryTerms :: "string \<Rightarrow> string list" where
  "extractQueryTerms query =
     filter (\<lambda>t. length t > 2)
       (js_split_ws (map (\<lambda>c. if is_word_char c \<or> js_space c then c else CHR '' '')
                         (js_toLowerCase query)))"

definition includes_ci :: "string \<Rightarrow> string \<Rightarrow> bool" where
  \<comment> \<open>\<open>text.toLowerCase().includes(term.toLowerCase())\<close>\<close>
  "includes_ci text t = js_includes (js_toLowerCase text) (js_toLowerCase t)"

definition generateHighlights :: "ChangeRecord \<Rightarrow> string list \<Rightarrow> SearchHighlight list" where
  "generateHighlights ch queryTerms =
     (let pathMatches = filter (\<lambda>t. includes_ci (filePath ch) t) queryTerms;
          symbolMatches = filter (\<lambda>s. list_ex (\<lambda>t. includes_ci s t) queryTerms) (symbols ch);
          matchingLines = take 5 (filter (\<lambda>l. list_ex (\<lambda>t. includes_ci l t) queryTerms)
                                         (js_split_char CHR 0x0A [] (diff ch)))
      in (if length pathMatches > 0
          then [\<lparr>h_field = ''filePath'', snippet = filePath ch, matchedTerms = pathMatches\<rparr>] else []) @
         (if length symbolMatches > 0
          then [\<lparr>h_field = ''symbols'', snippet = js_join '', '' symbolMatches,
                 matchedTerms = symbolMatches\<rparr>] else []) @
         (if length matchingLines > 0
          then [\<lparr>h_field = ''diff'', snippet = js_join [CHR 0x0A] matchingLines,
                 matchedTerms = filter (\<lambda>t. list_ex (\<lambda>l. includes_ci l t) matchingLines) queryTerms\<rparr>]
          else []) @
         (case summary ch of
            None \<Rightarrow> []
          | Some s \<Rightarrow>
              if s = [] then []
              else let summaryMatches = filter (\<lambda>t. includes_ci s t) queryTerms
                   in if length summaryMatches > 0
                      then [\<lparr>h_field = ''summary'', snippet = s, matchedTerms = summaryMatches\<rparr>]
                      else []))"

subsection \<open>Hydration\<close>

definition hydrate_one :: "string list \<Rightarrow> RankedResult \<Rightarrow> ChangeRecord \<Rightarrow> SearchResult" where
  "hydrate_one queryTerms ranked ch =
     \<lparr>sr_change = ch, sr_score = rrfScore ranked, sr_vectorScore = vectorScore ranked,
      sr_keywordScore = keywordScore ranked, highlights = Some (generateHighlights ch queryTerms)\<rparr>"

fun hydrate_loop :: "env \<Rightarrow> string list \<Rightarrow> RankedResult list \<Rightarrow> error + SearchResult list" where
  \<comment> \<open>the \<open>for\<close> loop of \<open>hydrateResults\<close>; a throwing \<open>getChange\<close> ends it\<close>
  "hydrate_loop e queryTerms [] = Inr []"
| "hydrate_loop e queryTerms (ranked # rest) =
     (case getChange e (changeId ranked) of
        Inl err \<Rightarrow> Inl err
      | Inr ch \<Rightarrow>
          (case hydrate_loop e queryTerms rest of
             Inl err \<Rightarrow> Inl err
           | Inr rs \<Rightarrow>
               Inr ((case ch of None \<Rightarrow> [] | Some c \<Rightarrow> [hydrate_one queryTerms ranked c]) @ rs)))"

definition hydrateResults :: "env \<Rightarrow> RankedResult list \<Rightarrow> string \<Rightarrow> nat \<Rightarrow> error + SearchResult list" where
  "hydrateResults e rankedResults query limit =
     hydrate_loop e (extractQueryTerms query) (take limit rankedResults)"

subsection \<open>Reranking stage\<close>

definition prepareDocumentForReranking :: "ChangeRecord \<Rightarrow> string" where
  "prepareDocumentForReranking ch =
     js_join [CHR 0x0A]
       ([''File: '' @ filePath ch] @
        (if length (symbols ch) > 0 then [''Symbols: '' @ js_join '', '' (symbols ch)] else []) @
        (case summary ch of
           None \<Rightarrow> []
         | Some s \<Rightarrow> if s = [] then [] else [''Summary: '' @ s]) @
        (let diffPreview = take 500 (diff ch)
         in if diffPreview = [] then [] else [''Changes: '' @ diffPreview]))"

fun rerank_documents :: "env \<Rightarrow> RankedResult list \<Rightarrow> error + RerankerDocument list" where
  \<comment> \<open>the loop of \<open>applyReranking\<close> that collects the documents\<close>
  "rerank_documents e [] = Inr []"
| "rerank_documents e (result # rest) =
     (case getChange e (changeId result) of
        Inl err \<Rightarrow> Inl err
      | Inr ch \<Rightarrow>
          (case rerank_documents e rest of
             Inl err \<Rightarrow> Inl err
           | Inr ds \<Rightarrow>
               Inr ((case ch of
                       None \<Rightarrow> []
                     | Some c \<Rightarrow> [\<lparr>d_id = changeId result, d_text = prepareDocumentForReranking c,
                                    originalScore = Some (rrfScore result)\<rparr>]) @ ds)))"

definition rerank_compare :: "RankedResult \<Rightarrow> RankedResult \<Rightarrow> real" where
  \<comment> \<open>the comparator of the sort in \<open>applyReranking\<close>\<close>
  "rerank_compare a b =
     (case (rerankerScore a, rerankerScore b) of
        (Some x, Some y) \<Rightarrow> y - x
      | _ \<Rightarrow> rrfScore b - rrfScore a)"

definition updatedResults :: "real RerankedResult list \<Rightarrow> RankedResult list \<Rightarrow> RankedResult list" where
  \<comment> \<open>the ranked results with the reranker's scores mapped back by id\<close>
  "updatedResults reranked rankedResults =
     (let rerankerScoreMap = js_new_Map (map (\<lambda>r. (rr_id r, rr_score r)) reranked)
      in map (\<lambda>r. r\<lparr>rerankerScore := map_of rerankerScoreMap (changeId r)\<rparr>) rankedResults)"

definition applyReranking :: "env \<Rightarrow> string \<Rightarrow> RankedResult list \<Rightarrow> RankedResult list" where
  \<comment> \<open>the \<open>catch\<close> of the method returns the ranked results as they came; the comparator of
      the final sort is not consistent on every list, so the sort is that of the host\<close>
  "applyReranking e query rankedResults =
     (case rerank_documents e (take TOP_K rankedResults) of
        Inl err \<Rightarrow> rankedResults
      | Inr documents \<Rightarrow>
          if length documents = 0 then rankedResults
          else
            (case reranker_rerank e query documents MAX_RESULTS of
               Inl err \<Rightarrow> rankedResults
             | Inr reranked \<Rightarrow>
                 js_array_sort (array_sort e) rerank_compare (updatedResults reranked rankedResults)))"

subsection \<open>search and findSimilar\<close>

definition search_params :: "SearchQuery \<Rightarrow> HybridSearchParams" where
  \<comment> \<open>the hybrid parameters with their defaults\<close>
  "search_params query =
     (case hybridParams query of
        None \<Rightarrow> \<lparr>vectorWeight = VECTOR_WEIGHT, keywordWeight = KEYWORD_WEIGHT, rerankTopK = RERANK_TOP_K\<rparr>
      | Some p \<Rightarrow> p)"

definition search_from_legs ::
  "env \<Rightarrow> SearchQuery \<Rightarrow> VectorSearchResult list \<Rightarrow> KeywordResult list \<Rightarrow> error + SearchResult list" where
  \<comment> \<open>\<open>search\<close> from the point where both legs have settled\<close>
  "search_from_legs e query vectorResults keywordResults =
     (let rankedResults = fuse_legs vectorResults keywordResults (search_params query);
          finalRanked =
            (if useReranker e \<and> reranker_isEnabled e \<and> length rankedResults > 0
             then applyReranking e (naturalLanguage query) rankedResults
             else rankedResults)
      in hydrateResults e finalRanked (naturalLanguage query) MAX_RESULTS)"

definition search :: "env \<Rightarrow> SearchQuery \<Rightarrow> error + SearchResult list" where
  \<comment> \<open>\<open>Inl\<close> is the error \<open>search\<close> rethrows; the completion event it emits is not modelled\<close>
  "search e query =
     (let enrichedFilters = enrichFilters (now e) (naturalLanguage query) (filters query);
          hp = search_params query;
          vectorResults = vectorSearch e (naturalLanguage query) (rerankTopK hp) (Some enrichedFilters);
          keywordResults = keywordSearch e (naturalLanguage query) (rerankTopK hp)
      in search_from_legs e query vectorResults keywordResults)"

fun similar_loop :: "env \<Rightarrow> VectorSearchResult list \<Rightarrow> error + SearchResult list" where
  "similar_loop e [] = Inr []"
| "similar_loop e (result # rest) =
     (case getChange e (v_changeId result) of
        Inl err \<Rightarrow> Inl err
      | Inr ch \<Rightarrow>
          (case similar_loop e rest of
             Inl err \<Rightarrow> Inl err
           | Inr rs \<Rightarrow>
               Inr ((case ch of
                       None \<Rightarrow> []
                     | Some c \<Rightarrow> [\<lparr>sr_change = c, sr_score = v_score result,
                                    sr_vectorScore = Some (v_score result),
                                    sr_keywordScore = None, highlights = None\<rparr>]) @ rs)))"

definition findSimilar :: "env \<Rightarrow> string \<Rightarrow> nat \<Rightarrow> error + SearchResult list" where
  "findSimilar e cid topK =
     (case getChange e cid of
        Inl err \<Rightarrow> Inl err
      | Inr None \<Rightarrow> Inl (Error (''Change not found: '' @ cid))
      | Inr (Some ch) \<Rightarrow>
          (case getVectorByChangeId e cid of
             Inl err \<Rightarrow> Inl err
           | Inr None \<Rightarrow> Inl (Error (''No embedding found for change: '' @ cid))
           | Inr (Some vectorRecord) \<Rightarrow>
               (case vectorStore_search e (vector vectorRecord) (topK + 1) None of
                  Inl err \<Rightarrow> Inl err
                | Inr similar \<Rightarrow>
                    similar_loop e (take topK (filter (\<lambda>r. v_changeId r \<noteq> cid) similar)))))"

definition vector_leg_throws :: "env \<Rightarrow> string \<Rightarrow> nat \<Rightarrow> SearchFilters option \<Rightarrow> bool" where
  \<comment> \<open>a call inside the \<open>try\<close> of \<open>vectorSearch\<close> throws: the embedding of the query, or the
      search of the vector store\<close>
  "vector_leg_throws e query topK fs =
     (case embedQuery e query of
        Inl err \<Rightarrow> True
      | Inr queryVector \<Rightarrow>
          (case vectorStore_search e queryVector topK fs of Inl err \<Rightarrow> True | Inr rs \<Rightarrow> False))"

definition effective_score_spec :: "RankedResult \<Rightarrow> real" where
  \<comment> \<open>the specification's effective score: the reranker score where one was assigned, the
      fusion score otherwise\<close>
  "effective_score_spec r = (case rerankerScore r of Some s \<Rightarrow> s | None \<Rightarrow> rrfScore r)"

definition ranks_before :: "RankedResult \<Rightarrow> RankedResult \<Rightarrow> bool" where
  \<comment> \<open>the pairwise order of the reranking stage: by reranker score where both candidates have
      one, by fusion score in every other pair\<close>
  "ranks_before a b =
     (case (rerankerScore a, rerankerScore b) of
        (Some x, Some y) \<Rightarrow> y \<le> x
      | _ \<Rightarrow> rrfScore b \<le> rrfScore a)"

section \<open>The reranker service\<close>

datatype json = JNull | JBool bool | JNum real | JStr string | JArr "json list" | JObj "(string \<times> json) list"

text \<open>
  What a \<open>fetch\<close> of the scoring endpoint can do: throw (network error, timeout), answer with
  a status that is not ok, or answer ok with a body; the body is \<open>None\<close> when it is not JSON,
  so that \<open>response.json()\<close> throws.  The backend is asked once per document, and once more
  in the alternative input format after an answer that is not ok; its answers are given by the
  position of the document.
\<close>

datatype http_response = FetchThrows | NotOk | Ok "json option"

record hf_backend =
  hf_primary :: "nat \<Rightarrow> http_response"
  hf_alt :: "nat \<Rightarrow> http_response"

datatype provider = huggingface | local_provider | cohere

record RerankerConfig =
  provider :: provider
  model :: string
  apiKey :: "string option"
  cfg_topK :: nat

fun js_prop :: "json \<Rightarrow> string \<Rightarrow> json option" where
  \<comment> \<open>\<open>value.key\<close> for a value that is not \<open>null\<close>; \<open>None\<close> is \<open>undefined\<close>.  Of two
      occurrences of a key in an object, \<open>JSON.parse\<close> keeps the last\<close>
  "js_prop (JObj kvs) k = map_of (rev kvs) k"
| "js_prop v k = None"

fun find_positive :: "json list \<Rightarrow> error + json option" where
  \<comment> \<open>\<open>first.find(item => item.label === 'LABEL_1' || ...)\<close>; reading \<open>label\<close> of
      \<open>null\<close> throws\<close>
  "find_positive [] = Inr None"
| "find_positive (item # items) =
     (if item = JNull then Inl (Error ''TypeError'')
      else if js_prop item ''label'' = Some (JStr ''LABEL_1'') \<or>
              js_prop item ''label'' = Some (JStr ''entailment'') \<or>
              js_prop item ''label'' = Some (JStr ''1'')
           then Inr (Some item)
           else find_positive items)"

definition extractScoreFromResult :: "json \<Rightarrow> error + json" where
  \<comment> \<open>\<open>Inr JNull\<close> is the result \<open>null\<close>\<close>
  "extractScoreFromResult result =
     (case result of
        JNum n \<Rightarrow> Inr (JNum n)
      | JArr items \<Rightarrow>
          (case items of
             [] \<Rightarrow> Inr JNull
           | first # rest \<Rightarrow>
               (case first of
                  JNum n \<Rightarrow> Inr first
                | JArr inner \<Rightarrow>
                    (case find_positive inner of
                       Inl err \<Rightarrow> Inl err
                     | Inr positive \<Rightarrow>
                         (case (case positive of None \<Rightarrow> None | Some p \<Rightarrow> js_prop p ''score'') of
                            Some v \<Rightarrow> Inr v
                          | None \<Rightarrow>
                              (case (case inner of [] \<Rightarrow> None | i0 # _ \<Rightarrow> js_prop i0 ''score'') of
                                 Some v \<Rightarrow> Inr v
                               | None \<Rightarrow> Inr JNull)))
                | _ \<Rightarrow> (case js_prop first ''score'' of Some v \<Rightarrow> Inr v | None \<Rightarrow> Inr JNull)))
      | JObj kvs \<Rightarrow> (case js_prop result ''score'' of Some v \<Rightarrow> Inr v | None \<Rightarrow> Inr JNull)
      | _ \<Rightarrow> Inr JNull)"

definition fallback_score :: "RerankerDocument \<Rightarrow> json" where
  \<comment> \<open>\<open>doc.originalScore ?? 0\<close>\<close>
  "fallback_score doc = JNum (nullish_or (originalScore doc) 0)"

definition parse_score :: "RerankerDocument \<Rightarrow> json option \<Rightarrow> json" where
  \<comment> \<open>\<open>extractScoreFromResult(await response.json()) ?? doc.originalScore ?? 0\<close>, inside the
      \<open>try\<close> of the document\<close>
  "parse_score doc body =
     (case body of
        None \<Rightarrow> fallback_score doc
      | Some payload \<Rightarrow>
          (case extractScoreFromResult payload of
             Inl err \<Rightarrow> fallback_score doc
           | Inr score \<Rightarrow> if score = JNull then fallback_score doc else score))"

definition hf_doc_score :: "hf_backend \<Rightarrow> nat \<Rightarrow> RerankerDocument \<Rightarrow> json" where
  \<comment> \<open>the score the loop pushes for the document at position \<open>idx\<close>\<close>
  "hf_doc_score b idx doc =
     (case hf_primary b idx of
        FetchThrows \<Rightarrow> fallback_score doc
      | NotOk \<Rightarrow>
          (case hf_alt b idx of
             FetchThrows \<Rightarrow> fallback_score doc
           | NotOk \<Rightarrow> fallback_score doc
           | Ok body \<Rightarrow> parse_score doc body)
      | Ok body \<Rightarrow> parse_score doc body)"

definition hf_scores :: "hf_backend \<Rightarrow> RerankerDocument list \<Rightarrow> json list" where
  "hf_scores b documents = map (\<lambda>(idx, doc). hf_doc_score b idx doc) (enumerate 0 documents)"

subsection \<open>Scores that are not numbers\<close>

text \<open>
  \<open>extractScoreFromResult\<close> returns the \<open>score\<close> it finds without looking at its type, so a
  score of the array can be any JSON value but \<open>null\<close>.  The comparator of the sort subtracts
  two scores, which converts each to a number first.  Numbers are the reals, with the two
  infinities and \<open>NaN\<close> that a conversion can yield.
\<close>

datatype jsnum = NaN | PosInf | NegInf | Fin real

fun js_negate :: "jsnum \<Rightarrow> jsnum" where
  "js_negate NaN = NaN"
| "js_negate PosInf = NegInf"
| "js_negate NegInf = PosInf"
| "js_negate (Fin x) = Fin (- x)"

fun js_minus :: "jsnum \<Rightarrow> jsnum \<Rightarrow> jsnum" where
  "js_minus NaN y = NaN"
| "js_minus x NaN = NaN"
| "js_minus (Fin x) (Fin y) = Fin (x - y)"
| "js_minus (Fin x) PosInf = NegInf"
| "js_minus (Fin x) NegInf = PosInf"
| "js_minus PosInf PosInf = NaN"
| "js_minus PosInf y = PosInf"
| "js_minus NegInf NegInf = NaN"
| "js_minus NegInf y = NegInf"

fun sort_answer :: "jsnum \<Rightarrow> real" where
  \<comment> \<open>the answer of a comparator as the sort reads it: \<open>NaN\<close> counts as \<open>0\<close>, and of the
      others only the sign counts\<close>
  "sort_answer NaN = 0"
| "sort_answer PosInf = 1"
| "sort_answer NegInf = - 1"
| "sort_answer (Fin x) = x"

definition is_digit_of :: "nat \<Rightarrow> char \<Rightarrow> bool" where
  \<comment> \<open>a digit of base 2, 8, 10 or 16\<close>
  "is_digit_of base c =
     (let n = (of_char c :: nat)
      in (48 \<le> n \<and> n < 48 + min base 10) \<or>
         (base = 16 \<and> ((65 \<le> n \<and> n \<le> 70) \<or> (97 \<le> n \<and> n \<le> 102))))"

definition digit_value :: "char \<Rightarrow> nat" where
  "digit_value c =
     (let n = (of_char c :: nat)
      in if n \<le> 57 then n - 48 else if n \<le> 70 then n - 55 else n - 87)"

definition digits_value :: "nat \<Rightarrow> string \<Rightarrow> nat" where
  "digits_value base ds = fold (\<lambda>c n. base * n + digit_value c) ds 0"

definition exponent_part :: "string \<Rightarrow> int option" where
  \<comment> \<open>the exponent of an \<open>ExponentPart\<close>, \<open>0\<close> for no text at all, \<open>None\<close> for any other text\<close>
  "exponent_part s =
     (case s of
        [] \<Rightarrow> Some 0
      | c # t \<Rightarrow>
          if c = CHR ''e'' \<or> c = CHR ''E''
          then
            (let sgn = (case t of d # u \<Rightarrow> if d = CHR ''-'' then - 1 else 1 | [] \<Rightarrow> (1::int));
                 ds = (case t of d # u \<Rightarrow> if d = CHR ''-'' \<or> d = CHR ''+'' then u else t | [] \<Rightarrow> t)
             in if ds \<noteq> [] \<and> list_all is_digit ds then Some (sgn * int (digits_value 10 ds)) else None)
          else None)"

definition pow10 :: "int \<Rightarrow> real" where
  "pow10 ex = (if 0 \<le> ex then 10 ^ nat ex else 1 / 10 ^ nat (- ex))"

definition unsigned_decimal :: "string \<Rightarrow> jsnum" where
  \<comment> \<open>\<open>StrUnsignedDecimalLiteral\<close>: \<open>Infinity\<close>, or digits with an optional fraction, or a
      fraction alone, each with an optional exponent\<close>
  "unsigned_decimal s =
     (if s = ''Infinity'' then PosInf
      else
        let ip = takeWhile is_digit s;
            r1 = dropWhile is_digit s;
            fp = (case r1 of c # t \<Rightarrow> if c = CHR ''.'' then takeWhile is_digit t else [] | [] \<Rightarrow> []);
            r2 = (case r1 of c # t \<Rightarrow> if c = CHR ''.'' then dropWhile is_digit t else r1 | [] \<Rightarrow> [])
        in if ip = [] \<and> fp = [] then NaN
           else
             (case exponent_part r2 of
                None \<Rightarrow> NaN
              | Some ex \<Rightarrow>
                  Fin ((real (digits_value 10 ip) + real (digits_value 10 fp) / 10 ^ length fp) * pow10 ex)))"

definition str_decimal :: "string \<Rightarrow> jsnum" where
  \<comment> \<open>\<open>StrDecimalLiteral\<close>: an optional sign\<close>
  "str_decimal s =
     (case s of
        [] \<Rightarrow> NaN
      | c # t \<Rightarrow>
          if c = CHR ''+'' then unsigned_decimal t
          else if c = CHR ''-'' then js_negate (unsigned_decimal t)
          else unsigned_decimal s)"

definition non_decimal :: "string \<Rightarrow> jsnum option" where
  \<comment> \<open>\<open>NonDecimalIntegerLiteral\<close>; \<open>None\<close> for a text that does not start as one does\<close>
  "non_decimal s =
     (case s of
        z # p # ds \<Rightarrow>
          (let base = (if p = CHR ''x'' \<or> p = CHR ''X'' then 16
                       else if p = CHR ''o'' \<or> p = CHR ''O'' then 8
                       else if p = CHR ''b'' \<or> p = CHR ''B'' then 2 else (0::nat))
           in if z = CHR ''0'' \<and> base \<noteq> 0
              then Some (if ds \<noteq> [] \<and> list_all (is_digit_of base) ds
                         then Fin (real (digits_value base ds)) else NaN)
              else None)
      | _ \<Rightarrow> None)"

definition StringToNumber :: "string \<Rightarrow> jsnum" where
  "StringToNumber str =
     (let s = js_trim str
      in if s = [] then Fin 0
         else case non_decimal s of Some v \<Rightarrow> v | None \<Rightarrow> str_decimal s)"

fun throws_ToPrimitive :: "json \<Rightarrow> bool" where
  \<comment> \<open>the conversion of the value to a primitive throws a \<open>TypeError\<close>: an object parsed from
      JSON has no callable property of its own, so one with a key \<open>toString\<close> has no method left
      that returns a primitive; joining an array converts its elements\<close>
  "throws_ToPrimitive (JObj kvs) = (''toString'' \<in> fst ` set kvs)"
| "throws_ToPrimitive (JArr vs) = (\<exists>v \<in> set vs. throws_ToPrimitive v)"
| "throws_ToPrimitive v = False"

fun ToNumber :: "json \<Rightarrow> jsnum" where
  \<comment> \<open>\<open>ToNumber\<close> of a value whose conversion to a primitive does not throw.  An object is
      the text \<open>[object Object]\<close>.  An array is its elements joined with commas, where \<open>null\<close>
      is the empty text; with two elements or more the text has a comma and is no number\<close>
  "ToNumber JNull = Fin 0"
| "ToNumber (JBool b) = Fin (if b then 1 else 0)"
| "ToNumber (JNum x) = Fin x"
| "ToNumber (JStr s) = StringToNumber s"
| "ToNumber (JObj kvs) = NaN"
| "ToNumber (JArr []) = Fin 0"
| "ToNumber (JArr [v]) =
     (case v of
        JNull \<Rightarrow> Fin 0
      | JBool b \<Rightarrow> NaN
      | JNum x \<Rightarrow> Fin x
      | JStr s \<Rightarrow> StringToNumber s
      | JArr vs \<Rightarrow> ToNumber (JArr vs)
      | JObj kvs \<Rightarrow> NaN)"
| "ToNumber (JArr (v # w # vs)) = NaN"

subsection \<open>rerankWithHuggingFace\<close>

definition js_truthy_string :: "string option \<Rightarrow> bool" where
  "js_truthy_string s = (case s of Some x \<Rightarrow> x \<noteq> [] | None \<Rightarrow> False)"

definition passthroughRerank :: "RerankerDocument list \<Rightarrow> nat \<Rightarrow> real RerankedResult list" where
  "passthroughRerank documents topK =
     take topK
       (js_sort (\<lambda>a b. rr_score b - rr_score a)
          (map (\<lambda>doc. \<lparr>rr_id = d_id doc, rr_score = nullish_or (originalScore doc) 0,
                        rr_originalScore = originalScore doc\<rparr>) documents))"

definition json_scored :: "real RerankedResult \<Rightarrow> json RerankedResult" where
  \<comment> \<open>a result whose score is a number, among results whose scores are JSON values\<close>
  "json_scored r = \<lparr>rr_id = rr_id r, rr_score = JNum (rr_score r), rr_originalScore = rr_originalScore r\<rparr>"

definition reranked_of :: "RerankerDocument list \<Rightarrow> json list \<Rightarrow> json RerankedResult list" where
  \<comment> \<open>\<open>documents.map((doc, idx) => ({ id: doc.id, score: scores[idx] ?? 0, ... }))\<close>\<close>
  "reranked_of documents scores =
     map (\<lambda>(idx, doc). \<lparr>rr_id = d_id doc,
                         rr_score = (if idx < length scores \<and> scores ! idx \<noteq> JNull
                                     then scores ! idx else JNum 0),
                         rr_originalScore = originalScore doc\<rparr>) (enumerate 0 documents)"

definition score_compare :: "json RerankedResult \<Rightarrow> json RerankedResult \<Rightarrow> real" where
  \<comment> \<open>\<open>(a, b) => b.score - a.score\<close> as the sort reads its answer\<close>
  "score_compare a b = sort_answer (js_minus (ToNumber (rr_score b)) (ToNumber (rr_score a)))"

definition rerankWithHuggingFace ::
  "((json RerankedResult \<Rightarrow> json RerankedResult \<Rightarrow> real) \<Rightarrow> json RerankedResult list \<Rightarrow> json RerankedResult list) \<Rightarrow>
   RerankerConfig \<Rightarrow> hf_backend \<Rightarrow> string \<Rightarrow> RerankerDocument list \<Rightarrow> nat \<Rightarrow> json RerankedResult list" where
  \<comment> \<open>\<open>host\<close> is the \<open>Array.prototype.sort\<close> of the host.  A sort of two elements or more
      compares each of them at least once, and a comparison converts both scores: where the
      conversion of a score throws, the sort throws, and the outer \<open>catch\<close> answers with
      \<open>passthroughRerank\<close>\<close>
  "rerankWithHuggingFace host cfg b query documents topK =
     (if \<not> js_truthy_string (apiKey cfg) then map json_scored (passthroughRerank documents topK)
      else
        let scores = hf_scores b documents;
            reranked = reranked_of documents scores
        in if 2 \<le> length reranked \<and> (\<exists>r \<in> set reranked. throws_ToPrimitive (rr_score r))
           then map json_scored (passthroughRerank documents topK)
           else take topK (js_array_sort host score_compare reranked))"

definition hf_body :: "hf_backend \<Rightarrow> nat \<Rightarrow> json option option" where
  \<comment> \<open>the body of the answer the loop reads the score from: that of the first request when
      it is ok, that of the second one when only that is ok, none otherwise\<close>
  "hf_body b idx =
     (case hf_primary b idx of
        Ok body \<Rightarrow> Some body
      | NotOk \<Rightarrow> (case hf_alt b idx of Ok body \<Rightarrow> Some body | _ \<Rightarrow> None)
      | FetchThrows \<Rightarrow> None)"

definition extracted :: "json option \<Rightarrow> json option" where
  \<comment> \<open>what \<open>extractScoreFromResult\<close> returns on the body of an answer; \<open>None\<close> when it returns
      \<open>null\<close> or throws, or the body is not JSON\<close>
  "extracted body =
     (case body of
        None \<Rightarrow> None
      | Some payload \<Rightarrow>
          (case extractScoreFromResult payload of
             Inl err \<Rightarrow> None
           | Inr score \<Rightarrow> if score = JNull then None else Some score))"

section \<open>Example inputs\<close>

definition ex_vector_scores :: "ScoreEntry list" where
  "ex_vector_scores = [\<lparr>s_id = ''a'', s_score = 9 / 10\<rparr>, \<lparr>s_id = ''b'', s_score = 5 / 10\<rparr>]"


definition ex_change :: "string \<Rightarrow> ChangeRecord" where
  "ex_change c = \<lparr>c_id = c, timestamp = 0, filePath = ''src/parser.ts'', symbols = [],
                   diff = [], summary = None\<rparr>"

definition ex_vs :: "VectorSearchResult list" where
  "ex_vs = [\<lparr>v_id = ''v1'', v_changeId = ''a'', v_score = 9 / 10, distance = 1 / 10\<rparr>,
            \<lparr>v_id = ''v2'', v_changeId = ''b'', v_score = 5 / 10, distance = 5 / 10\<rparr>]"

definition ex_ks :: "KeywordResult list" where
  "ex_ks = [\<lparr>change = ex_change ''b'', rank = 1\<rparr>, \<lparr>change = ex_change ''c'', rank = 2\<rparr>]"

definition ex_params :: HybridSearchParams where
  "ex_params = \<lparr>vectorWeight = 6 / 10, keywordWeight = 4 / 10, rerankTopK = 50\<rparr>"

definition ex_nv :: NormalizedScores where
  "ex_nv = normalizeScores (vectorEntries ex_vs) MIN_VECTOR_SCORE"

definition ex_nk :: NormalizedScores where
  "ex_nk = normalizeScores (keywordEntries ex_ks) MIN_KEYWORD_SCORE"

definition ex2_vs :: "VectorSearchResult list" where
  "ex2_vs = [\<lparr>v_id = ''v1'', v_changeId = ''b'', v_score = 9 / 10, distance = 1 / 10\<rparr>,
             \<lparr>v_id = ''v2'', v_changeId = ''a'', v_score = 5 / 10, distance = 5 / 10\<rparr>]"

definition ex2_ks :: "KeywordResult list" where
  "ex2_ks = [\<lparr>change = ex_change ''c'', rank = 1\<rparr>, \<lparr>change = ex_change ''b'', rank = 2\<rparr>]"

definition ex2_nv :: NormalizedScores where
  "ex2_nv = normalizeScores (vectorEntries ex2_vs) MIN_VECTOR_SCORE"

definition ex2_nk :: NormalizedScores where
  "ex2_nk = normalizeScores (keywordEntries ex2_ks) MIN_KEYWORD_SCORE"

definition ex2_b :: RankedResult where
  "ex2_b = \<lparr>changeId = ''b'', vectorRank = Some 1, keywordRank = Some 2,
            vectorScore = Some (9 / 10), keywordScore = Some 2,
            normalizedVectorScore = Some 1, normalizedKeywordScore = Some 1,
            rrfScore = 6 / 10 * (1 / 61) + 4 / 10 * (1 / 62), rerankerScore = None\<rparr>"

definition ex_env :: env where
  "ex_env =
     \<lparr>workspaceId = ''ws'', now = 1000000000000,
      embedQuery = (\<lambda>q. Inl (Error ''ECONNREFUSED'')),
      vectorStore_search = (\<lambda>v k f. Inr []),
      getVectorByChangeId = (\<lambda>c. Inr None),
      searchChanges = (\<lambda>w q k. Inr ex_ks),
      getChange = (\<lambda>c. if c = ''b'' \<or> c = ''c'' then Inr (Some (ex_change c)) else Inr None),
      useReranker = False, reranker_isEnabled = False,
      reranker_rerank = (\<lambda>q ds k. Inr []), array_sort = short_array_sort\<rparr>"

definition ex_env_empty :: env where
  \<comment> \<open>as \<open>ex_env\<close>, with a lexical store that finds nothing\<close>
  "ex_env_empty = ex_env\<lparr>searchChanges := (\<lambda>w q k. Inr [])\<rparr>"

definition ex_query :: SearchQuery where
  "ex_query = \<lparr>naturalLanguage = ''fixed bug in parser.ts yesterday'', filters = None,
                hybridParams = None\<rparr>"

definition ex_env_rr :: env where
  \<comment> \<open>a store that has lost the record of change \<open>a\<close>, and a reranker that scores every
      document \<open>0.9\<close>\<close>
  "ex_env_rr =
     \<lparr>workspaceId = ''ws'', now = 1000000000000,
      embedQuery = (\<lambda>q. Inr []),
      vectorStore_search = (\<lambda>v k f. Inr []),
      getVectorByChangeId = (\<lambda>c. Inr None),
      searchChanges = (\<lambda>w q k. Inr []),
      getChange = (\<lambda>c. if c = ''a'' then Inr None else Inr (Some (ex_change c))),
      useReranker = True, reranker_isEnabled = True,
      reranker_rerank = (\<lambda>q ds k. Inr (map (\<lambda>d. \<lparr>rr_id = d_id d, rr_score = 9 / 10,
                                                   rr_originalScore = originalScore d\<rparr>) ds)),
      array_sort = short_array_sort\<rparr>"

definition ex_ra :: RankedResult where
  "ex_ra = \<lparr>changeId = ''a'', vectorRank = Some 1, keywordRank = None,
            vectorScore = Some (9 / 10), keywordScore = None,
            normalizedVectorScore = Some 1, normalizedKeywordScore = None,
            rrfScore = 2 / 100, rerankerScore = None\<rparr>"

definition ex_rb :: RankedResult where
  "ex_rb = \<lparr>changeId = ''b'', vectorRank = Some 2, keywordRank = None,
            vectorScore = Some (5 / 10), keywordScore = None,
            normalizedVectorScore = Some 0, normalizedKeywordScore = None,
            rrfScore = 1 / 100, rerankerScore = None\<rparr>"

definition ex_doc_b :: RerankerDocument where
  "ex_doc_b = \<lparr>d_id = ''b'', d_text = prepareDocumentForReranking (ex_change ''b''),
               originalScore = Some (1 / 100)\<rparr>"

definition ex_cfg :: RerankerConfig where
  "ex_cfg = \<lparr>provider = huggingface, model = ''BAAI/bge-reranker-base'', apiKey = Some ''hf_key'',
              cfg_topK = 10\<rparr>"

definition ex_docs :: "RerankerDocument list" where
  "ex_docs = [\<lparr>d_id = ''x'', d_text = ''File: a.ts'', originalScore = Some (2 / 100)\<rparr>,
              \<lparr>d_id = ''y'', d_text = ''File: b.ts'', originalScore = Some (1 / 100)\<rparr>]"

definition ex_labels :: json where
  \<comment> \<open>a text-classification answer: \<open>[[{label, score}, {label, score}]]\<close>\<close>
  "ex_labels =
     JArr [JArr [JObj [(''label'', JStr ''LABEL_0''), (''score'', JNum (3 / 10))],
                 JObj [(''label'', JStr ''LABEL_1''), (''score'', JNum (7 / 10))]]]"

definition ex_backend :: hf_backend where
  \<comment> \<open>the first document is scored; the answer for the second is a string\<close>
  "ex_backend =
     \<lparr>hf_primary = (\<lambda>idx. if idx = 0 then Ok (Some ex_labels) else Ok (Some (JStr ''loading''))),
      hf_alt = (\<lambda>idx. NotOk)\<rparr>"

definition ex_equal_scores :: "ScoreEntry list" where
  "ex_equal_scores = [\<lparr>s_id = ''x'', s_score = 5 / 10\<rparr>, \<lparr>s_id = ''y'', s_score = 5 / 10\<rparr>]"

definition ex2_a :: RankedResult where
  "ex2_a = \<lparr>changeId = ''a'', vectorRank = Some 2, keywordRank = None,
            vectorScore = Some (5 / 10), keywordScore = None,
            normalizedVectorScore = Some 0, normalizedKeywordScore = None,
            rrfScore = 6 / 10 * (1 / 62), rerankerScore = None\<rparr>"

definition ex_rd :: RankedResult where
  \<comment> \<open>with \<open>ex_ra\<close> and \<open>ex_rb\<close> rescored: a scored candidate below an unscored one in fusion
      score\<close>
  "ex_rd = \<lparr>changeId = ''d'', vectorRank = Some 3, keywordRank = None,
            vectorScore = Some (4 / 10), keywordScore = None,
            normalizedVectorScore = Some 0, normalizedKeywordScore = None,
            rrfScore = 3 / 100, rerankerScore = Some (1 / 10)\<rparr>"

definition ex_backend_high :: hf_backend where
  \<comment> \<open>the first document is scored; the answer for the second is \<open>{"score": "high"}\<close>\<close>
  "ex_backend_high =
     \<lparr>hf_primary = (\<lambda>idx. if idx = 0 then Ok (Some ex_labels)
                          else Ok (Some (JObj [(''score'', JStr ''high'')]))),
      hf_alt = (\<lambda>idx. NotOk)\<rparr>"

definition ex_cand :: "string \<Rightarrow> real \<Rightarrow> RankedResult" where
  \<comment> \<open>a lexical candidate with the given id and fusion score\<close>
  "ex_cand c f = \<lparr>changeId = c, vectorRank = None, keywordRank = Some 1,
                   vectorScore = None, keywordScore = Some 1,
                   normalizedVectorScore = None, normalizedKeywordScore = Some 1,
                   rrfScore = f, rerankerScore = None\<rparr>"

definition ex_mixed :: "RankedResult list" where
  "ex_mixed = [ex_cand ''a'' (4 / 100), ex_cand ''b'' (3 / 100), ex_cand ''c'' (2 / 100),
               ex_cand ''d'' (1 / 100)]"

definition ex_env_mixed :: env where
  \<comment> \<open>a store that has lost the record of change \<open>c\<close>, and a reranker that scores \<open>a\<close>
      \<open>0.1\<close>, \<open>b\<close> \<open>0.9\<close> and \<open>d\<close> \<open>0.2\<close>\<close>
  "ex_env_mixed =
     ex_env_rr\<lparr>getChange := (\<lambda>c. if c = ''c'' then Inr None else Inr (Some (ex_change c))),
               reranker_rerank := (\<lambda>q ds k. Inr (map (\<lambda>d.
                  \<lparr>rr_id = d_id d,
                   rr_score = (if d_id d = ''a'' then 1 / 10 else if d_id d = ''b'' then 9 / 10 else 2 / 10),
                   rr_originalScore = originalScore d\<rparr>) ds))\<rparr>"

definition ex_mixed_docs :: "RerankerDocument list" where
  "ex_mixed_docs =
     [\<lparr>d_id = ''a'', d_text = ''File: src/parser.ts'', originalScore = Some (4 / 100)\<rparr>,
      \<lparr>d_id = ''b'', d_text = ''File: src/parser.ts'', originalScore = Some (3 / 100)\<rparr>,
      \<lparr>d_id = ''d'', d_text = ''File: src/parser.ts'', originalScore = Some (1 / 100)\<rparr>]"

definition ex_mixed_scores :: "real RerankedResult list" where
  "ex_mixed_scores =
     [\<lparr>rr_id = ''a'', rr_score = 1 / 10, rr_originalScore = Some (4 / 100)\<rparr>,
      \<lparr>rr_id = ''b'', rr_score = 9 / 10, rr_originalScore = Some (3 / 100)\<rparr>,
      \<lparr>rr_id = ''d'', rr_score = 2 / 10, rr_originalScore = Some (1 / 100)\<rparr>]"

definition ex_mixed_out :: "RankedResult list" where
  "ex_mixed_out =
     [(ex_cand ''b'' (3 / 100))\<lparr>rerankerScore := Some (9 / 10)\<rparr>,
      (ex_cand ''d'' (1 / 100))\<lparr>rerankerScore := Some (2 / 10)\<rparr>,
      (ex_cand ''a'' (4 / 100))\<lparr>rerankerScore := Some (1 / 10)\<rparr>,
      ex_cand ''c'' (2 / 100)]"

section \<open>Properties of the array and map operations\<close>

subsection \<open>Maps in insertion order\<close>

lemma map_of_map_set: "map_of (map_set k v m) k' = (if k' = k then Some v else map_of m k')"
  by (induction m) auto

lemma keys_map_set: "fst ` set (map_set k v m) = insert k (fst ` set m)"
proof (induction m)
  case Nil
  then show ?case by simp
next
  case (Cons a m)
  obtain k' v' where a: "a = (k', v')" by (cases a)
  show ?case by (cases "k' = k") (simp_all add: a Cons.IH insert_commute)
qed

lemma distinct_map_set: "distinct (map fst m) \<Longrightarrow> distinct (map fst (map_set k v m))"
proof (induction m)
  case Nil
  then show ?case by simp
next
  case (Cons a m)
  obtain k' v' where a: "a = (k', v')" by (cases a)
  show ?case
  proof (cases "k' = k")
    case True
    with Cons.prems a show ?thesis by simp
  next
    case False
    have "k' \<notin> fst ` set (map_set k v m)"
      using Cons.prems a False by (simp add: keys_map_set)
    with Cons a False show ?thesis by simp
  qed
qed

lemma map_of_fold_map_set:
  "map_of (fold (\<lambda>(k, v) m. map_set k v m) ps m) c = Some x \<Longrightarrow>
     (c, x) \<in> set ps \<or> map_of m c = Some x"
proof (induction ps arbitrary: m)
  case Nil
  then show ?case by simp
next
  case (Cons p ps)
  obtain k v where p: "p = (k, v)" by (cases p)
  from Cons.prems p have "map_of (fold (\<lambda>(k, v) m. map_set k v m) ps (map_set k v m)) c = Some x"
    by simp
  from Cons.IH [OF this] show ?case
    by (auto simp: p map_of_map_set split: if_splits)
qed

lemma map_of_js_new_Map: "map_of (js_new_Map ps) c = Some x \<Longrightarrow> (c, x) \<in> set ps"
  using map_of_fold_map_set [of ps "[]" c x] by (simp add: js_new_Map_def)

lemma keys_fold_map_set:
  "fst ` set (fold (\<lambda>(k, v) m. map_set k v m) ps m) = fst ` set ps \<union> fst ` set m"
proof (induction ps arbitrary: m)
  case Nil
  then show ?case by simp
next
  case (Cons p ps)
  obtain k v where p: "p = (k, v)" by (cases p)
  show ?case by (simp add: p Cons.IH keys_map_set)
qed

lemma js_new_Map_None: "c \<notin> fst ` set ps \<Longrightarrow> map_of (js_new_Map ps) c = None"
proof -
  assume "c \<notin> fst ` set ps"
  then have "c \<notin> fst ` set (js_new_Map ps)" by (simp add: js_new_Map_def keys_fold_map_set)
  then show ?thesis by (simp add: map_of_eq_None_iff)
qed

subsection \<open>Sorting\<close>

lemma mset_insert_by: "mset (insert_by cmp x xs) = add_mset x (mset xs)"
  by (induction xs) simp_all

lemma mset_js_sort: "mset (js_sort cmp xs) = mset xs"
  by (induction xs) (simp_all add: js_sort_def mset_insert_by)

lemma set_js_sort: "set (js_sort cmp xs) = set xs"
  using mset_js_sort [of cmp xs] by (metis set_mset_mset)

lemma length_js_sort: "length (js_sort cmp xs) = length xs"
  using mset_js_sort [of cmp xs] by (metis size_mset)


lemma set_insert_by: "set (insert_by cmp x ys) = insert x (set ys)"
  by (induction ys) auto



lemma sorted_insert_by:
  assumes total: "\<And>a b. a \<in> insert x (set ys) \<Longrightarrow> b \<in> insert x (set ys) \<Longrightarrow>
                    cmp a b \<le> 0 \<or> cmp b a \<le> 0"
    and trans: "\<And>a b c. a \<in> insert x (set ys) \<Longrightarrow> b \<in> insert x (set ys) \<Longrightarrow>
                    c \<in> insert x (set ys) \<Longrightarrow> cmp a b \<le> 0 \<Longrightarrow> cmp b c \<le> 0 \<Longrightarrow> cmp a c \<le> 0"
    and sorted: "sorted_wrt (\<lambda>a b. cmp a b \<le> 0) ys"
  shows "sorted_wrt (\<lambda>a b. cmp a b \<le> 0) (insert_by cmp x ys)"
  using assms
proof (induction ys)
  case Nil
  show ?case by simp
next
  case (Cons y ys)
  have s': "sorted_wrt (\<lambda>a b. cmp a b \<le> 0) ys" and yz: "\<And>z. z \<in> set ys \<Longrightarrow> cmp y z \<le> 0"
    using Cons.prems(3) by simp_all
  show ?case
  proof (cases "cmp x y \<le> 0")
    case True
    have xz: "cmp x z \<le> 0" if z: "z \<in> set ys" for z
    proof (rule Cons.prems(2) [of x y z])
      show "x \<in> insert x (set (y # ys))" by simp
      show "y \<in> insert x (set (y # ys))" by simp
      show "z \<in> insert x (set (y # ys))" using z by simp
      show "cmp x y \<le> 0" by (rule True)
      show "cmp y z \<le> 0" using z by (rule yz)
    qed
    have "insert_by cmp x (y # ys) = x # y # ys" using True by simp
    moreover have "sorted_wrt (\<lambda>a b. cmp a b \<le> 0) (x # y # ys)"
      using xz yz s' True by (simp only: sorted_wrt.simps list.set ball_simps) blast
    ultimately show ?thesis by simp
  next
    case False
    have "cmp x y \<le> 0 \<or> cmp y x \<le> 0" by (rule Cons.prems(1)) simp_all
    with False have yx: "cmp y x \<le> 0" by blast
    have ih: "sorted_wrt (\<lambda>a b. cmp a b \<le> 0) (insert_by cmp x ys)"
    proof (rule Cons.IH)
      fix a b assume a: "a \<in> insert x (set ys)" and b: "b \<in> insert x (set ys)"
      show "cmp a b \<le> 0 \<or> cmp b a \<le> 0"
      proof (rule Cons.prems(1))
        show "a \<in> insert x (set (y # ys))" using a by auto
        show "b \<in> insert x (set (y # ys))" using b by auto
      qed
    next
      fix a b c assume a: "a \<in> insert x (set ys)" and b: "b \<in> insert x (set ys)"
        and c: "c \<in> insert x (set ys)" and ab: "cmp a b \<le> 0" and bc: "cmp b c \<le> 0"
      show "cmp a c \<le> 0"
      proof (rule Cons.prems(2) [of a b c])
        show "a \<in> insert x (set (y # ys))" using a by auto
        show "b \<in> insert x (set (y # ys))" using b by auto
        show "c \<in> insert x (set (y # ys))" using c by auto
      qed (rule ab, rule bc)
    next
      show "sorted_wrt (\<lambda>a b. cmp a b \<le> 0) ys" by (rule s')
    qed
    have yall: "\<forall>z \<in> set (insert_by cmp x ys). cmp y z \<le> 0"
    proof
      fix z assume "z \<in> set (insert_by cmp x ys)"
      then have "z = x \<or> z \<in> set ys" by (simp add: set_insert_by)
      then show "cmp y z \<le> 0" using yx yz by blast
    qed
    have "insert_by cmp x (y # ys) = y # insert_by cmp x ys" using False by simp
    moreover have "sorted_wrt (\<lambda>a b. cmp a b \<le> 0) (y # insert_by cmp x ys)"
      using yall ih by (simp only: sorted_wrt.simps)
    ultimately show ?thesis by simp
  qed
qed

lemma sorted_js_sort:
  assumes total: "\<And>a b. a \<in> set xs \<Longrightarrow> b \<in> set xs \<Longrightarrow> cmp a b \<le> 0 \<or> cmp b a \<le> 0"
    and trans: "\<And>a b c. a \<in> set xs \<Longrightarrow> b \<in> set xs \<Longrightarrow> c \<in> set xs \<Longrightarrow>
                  cmp a b \<le> 0 \<Longrightarrow> cmp b c \<le> 0 \<Longrightarrow> cmp a c \<le> 0"
  shows "sorted_wrt (\<lambda>a b. cmp a b \<le> 0) (js_sort cmp xs)"
  using assms
proof (induction xs)
  case Nil
  show ?case by (simp add: js_sort_def)
next
  case (Cons x xs)
  have ih: "sorted_wrt (\<lambda>a b. cmp a b \<le> 0) (js_sort cmp xs)"
  proof (rule Cons.IH)
    fix a b assume a: "a \<in> set xs" and b: "b \<in> set xs"
    show "cmp a b \<le> 0 \<or> cmp b a \<le> 0"
    proof (rule Cons.prems(1))
      show "a \<in> set (x # xs)" using a by simp
      show "b \<in> set (x # xs)" using b by simp
    qed
  next
    fix a b c assume a: "a \<in> set xs" and b: "b \<in> set xs" and c: "c \<in> set xs"
      and ab: "cmp a b \<le> 0" and bc: "cmp b c \<le> 0"
    show "cmp a c \<le> 0"
    proof (rule Cons.prems(2) [of a b c])
      show "a \<in> set (x # xs)" using a by simp
      show "b \<in> set (x # xs)" using b by simp
      show "c \<in> set (x # xs)" using c by simp
    qed (rule ab, rule bc)
  qed
  have eq: "js_sort cmp (x # xs) = insert_by cmp x (js_sort cmp xs)" by (simp add: js_sort_def)
  have st: "insert x (set (js_sort cmp xs)) = set (x # xs)" by (simp add: set_js_sort)
  show ?case unfolding eq
  proof (rule sorted_insert_by)
    fix a b assume "a \<in> insert x (set (js_sort cmp xs))" "b \<in> insert x (set (js_sort cmp xs))"
    then have a: "a \<in> set (x # xs)" and b: "b \<in> set (x # xs)" unfolding st by simp_all
    show "cmp a b \<le> 0 \<or> cmp b a \<le> 0" using a b by (rule Cons.prems(1))
  next
    fix a b c assume "a \<in> insert x (set (js_sort cmp xs))" "b \<in> insert x (set (js_sort cmp xs))"
      "c \<in> insert x (set (js_sort cmp xs))" and ab: "cmp a b \<le> 0" and bc: "cmp b c \<le> 0"
    then have a: "a \<in> set (x # xs)" and b: "b \<in> set (x # xs)" and c: "c \<in> set (x # xs)"
      unfolding st by simp_all
    show "cmp a c \<le> 0" using a b c ab bc by (rule Cons.prems(2))
  next
    show "sorted_wrt (\<lambda>a b. cmp a b \<le> 0) (js_sort cmp xs)" by (rule ih)
  qed
qed


subsection \<open>Sorting with a comparator\<close>

lemma consistent_onD:
  assumes "consistent_on cmp xs" and "a \<in> set xs" and "b \<in> set xs" and "c \<in> set xs"
  shows "cmp a a = 0" and "cmp a b = 0 \<Longrightarrow> cmp b a = 0"
    and "cmp a b = 0 \<Longrightarrow> cmp b c = 0 \<Longrightarrow> cmp a c = 0"
    and "cmp a b < 0 \<Longrightarrow> cmp b c < 0 \<Longrightarrow> cmp a c < 0"
    and "cmp a b > 0 \<Longrightarrow> cmp b c > 0 \<Longrightarrow> cmp a c > 0"
  using assms unfolding consistent_on_def by blast+

lemma consistent_on_flip:
  assumes c: "consistent_on cmp xs" and a: "a \<in> set xs" and b: "b \<in> set xs"
  shows "cmp a b < 0 \<Longrightarrow> cmp b a > 0" and "cmp a b > 0 \<Longrightarrow> cmp b a < 0"
proof -
  have aa: "cmp a a = 0" using consistent_onD(1) [OF c a a a] .
  {
    assume lt: "cmp a b < 0"
    show "cmp b a > 0"
    proof (rule ccontr)
      assume "\<not> cmp b a > 0"
      then consider "cmp b a < 0" | "cmp b a = 0" by linarith
      then show False
      proof cases
        case 1
        from consistent_onD(4) [OF c a b a lt 1] aa show False by simp
      next
        case 2
        from consistent_onD(2) [OF c b a a 2] lt show False by simp
      qed
    qed
  }
  {
    assume gt: "cmp a b > 0"
    show "cmp b a < 0"
    proof (rule ccontr)
      assume "\<not> cmp b a < 0"
      then consider "cmp b a > 0" | "cmp b a = 0" by linarith
      then show False
      proof cases
        case 1
        from consistent_onD(5) [OF c a b a gt 1] aa show False by simp
      next
        case 2
        from consistent_onD(2) [OF c b a a 2] gt show False by simp
      qed
    qed
  }
qed

lemma consistent_on_total:
  assumes c: "consistent_on cmp xs" and a: "a \<in> set xs" and b: "b \<in> set xs"
  shows "cmp a b \<le> 0 \<or> cmp b a \<le> 0"
proof (cases "cmp a b \<le> 0")
  case True
  then show ?thesis by simp
next
  case False
  then have "cmp a b > 0" by simp
  from consistent_on_flip(2) [OF c a b this] show ?thesis by simp
qed

lemma consistent_on_trans:
  assumes c: "consistent_on cmp xs" and x: "a \<in> set xs" and y: "b \<in> set xs" and z: "c \<in> set xs"
    and ab: "cmp a b \<le> 0" and bc: "cmp b c \<le> 0"
  shows "cmp a c \<le> 0"
proof (rule ccontr)
  assume "\<not> cmp a c \<le> 0"
  then have ac: "cmp a c > 0" by simp
  from consistent_on_flip(2) [OF c x z ac] have ca: "cmp c a < 0" .
  from ab consider "cmp a b < 0" | "cmp a b = 0" by linarith
  then show False
  proof cases
    case 1
    from consistent_onD(4) [OF c z x y ca 1] have cb: "cmp c b < 0" .
    from consistent_on_flip(1) [OF c z y cb] bc show False by simp
  next
    case 2
    from consistent_onD(2) [OF c x y y 2] have ba: "cmp b a = 0" .
    from bc consider "cmp b c < 0" | "cmp b c = 0" by linarith
    then show False
    proof cases
      case 1
      from consistent_onD(4) [OF c y z x 1 ca] ba show False by simp
    next
      case 2
      from consistent_onD(3) [OF c x y z \<open>cmp a b = 0\<close> 2] ac show False by simp
    qed
  qed
qed

lemma sorted_js_array_sort:
  assumes "consistent_on cmp xs"
  shows "js_array_sort host cmp xs = js_sort cmp xs"
    and "sorted_wrt (\<lambda>a b. cmp a b \<le> 0) (js_array_sort host cmp xs)"
proof -
  show eq: "js_array_sort host cmp xs = js_sort cmp xs" using assms by (simp add: js_array_sort_def)
  show "sorted_wrt (\<lambda>a b. cmp a b \<le> 0) (js_array_sort host cmp xs)"
    unfolding eq
  proof (rule sorted_js_sort)
    fix a b assume "a \<in> set xs" "b \<in> set xs"
    then show "cmp a b \<le> 0 \<or> cmp b a \<le> 0" by (rule consistent_on_total [OF assms])
  next
    fix a b c assume "a \<in> set xs" "b \<in> set xs" "c \<in> set xs" "cmp a b \<le> 0" "cmp b c \<le> 0"
    then show "cmp a c \<le> 0" by (rule consistent_on_trans [OF assms])
  qed
qed

lemma mset_js_array_sort:
  "sort_permutes host \<Longrightarrow> mset (js_array_sort host cmp xs) = mset xs"
  by (simp add: js_array_sort_def sort_permutes_def mset_js_sort)

lemma sort_permutes_js_sort: "sort_permutes js_sort"
  by (simp add: sort_permutes_def mset_js_sort)

lemma consistent_on_antisym:
  assumes anti: "\<And>a b. cmp b a = - cmp a b"
    and trans: "\<And>a b c. a \<in> set xs \<Longrightarrow> b \<in> set xs \<Longrightarrow> c \<in> set xs \<Longrightarrow>
                  cmp a b \<le> 0 \<Longrightarrow> cmp b c \<le> 0 \<Longrightarrow> cmp a c \<le> 0"
  shows "consistent_on cmp xs"
  unfolding consistent_on_def
proof (intro ballI conjI impI)
  fix a
  from anti [of a a] show "cmp a a = 0" by simp
next
  fix a b assume "cmp a b = 0"
  with anti [of a b] show "cmp b a = 0" by simp
next
  fix a b c assume m: "a \<in> set xs" "b \<in> set xs" "c \<in> set xs" and e: "cmp a b = 0 \<and> cmp b c = 0"
  from e have "cmp a b \<le> 0" "cmp b c \<le> 0" by simp_all
  from trans [OF m this] have 1: "cmp a c \<le> 0" .
  from e anti [of a b] anti [of b c] have "cmp c b \<le> 0" "cmp b a \<le> 0" by simp_all
  from trans [OF m(3) m(2) m(1) this] have "cmp c a \<le> 0" .
  with anti [of a c] 1 show "cmp a c = 0" by simp
next
  fix a b c assume m: "a \<in> set xs" "b \<in> set xs" "c \<in> set xs" and e: "cmp a b < 0 \<and> cmp b c < 0"
  from e have "cmp a b \<le> 0" "cmp b c \<le> 0" by simp_all
  from trans [OF m this] have 1: "cmp a c \<le> 0" .
  show "cmp a c < 0"
  proof (rule ccontr)
    assume "\<not> cmp a c < 0"
    with 1 have "cmp a c = 0" by simp
    with anti [of a c] have "cmp c a \<le> 0" by simp
    from trans [OF m(3) m(1) m(2) this \<open>cmp a b \<le> 0\<close>] have "cmp c b \<le> 0" .
    with anti [of b c] e show False by simp
  qed
next
  fix a b c assume m: "a \<in> set xs" "b \<in> set xs" "c \<in> set xs" and e: "cmp a b > 0 \<and> cmp b c > 0"
  from e anti [of a b] anti [of b c] have cb: "cmp c b \<le> 0" and ba: "cmp b a \<le> 0" by simp_all
  from trans [OF m(3) m(2) m(1) cb ba] have 1: "cmp c a \<le> 0" .
  show "cmp a c > 0"
  proof (rule ccontr)
    assume "\<not> cmp a c > 0"
    with anti [of a c] have "cmp c a \<ge> 0" by simp
    with 1 have "cmp c a = 0" by simp
    with anti [of a c] have "cmp a c \<le> 0" by simp
    from trans [OF m(1) m(3) m(2) this cb] have "cmp a b \<le> 0" .
    with e show False by simp
  qed
qed

lemma js_sort_cong:
  assumes "\<And>a b. a \<in> set xs \<Longrightarrow> b \<in> set xs \<Longrightarrow> cmp a b = cmp' a b"
  shows "js_sort cmp xs = js_sort cmp' xs"
  using assms
proof (induction xs)
  case Nil
  show ?case by (simp add: js_sort_def)
next
  case (Cons x xs)
  have ih: "js_sort cmp xs = js_sort cmp' xs" by (rule Cons.IH) (simp add: Cons.prems)
  have ins: "set ys \<subseteq> set xs \<Longrightarrow> insert_by cmp x ys = insert_by cmp' x ys" for ys
  proof (induction ys)
    case Nil
    show ?case by simp
  next
    case (Cons y ys)
    then have "cmp x y = cmp' x y" using Cons.prems by (simp add: \<open>\<And>a b. a \<in> set (x # xs) \<Longrightarrow> b \<in> set (x # xs) \<Longrightarrow> cmp a b = cmp' a b\<close>)
    with Cons show ?case by simp
  qed
  have "js_sort cmp (x # xs) = insert_by cmp x (js_sort cmp xs)" by (simp add: js_sort_def)
  also have "\<dots> = insert_by cmp' x (js_sort cmp xs)" by (rule ins) (simp add: set_js_sort)
  also have "\<dots> = insert_by cmp' x (js_sort cmp' xs)" by (simp only: ih)
  also have "\<dots> = js_sort cmp' (x # xs)" by (simp add: js_sort_def)
  finally show ?case .
qed

lemma mset_take_drop: "mset (take n xs) + mset (drop n xs) = mset xs"
  by (metis append_take_drop_id mset_append)

lemma mset_binary_insertion: "mset (binary_insertion cmp run rest) = mset run + mset rest"
proof (induction rest arbitrary: run)
  case Nil
  show ?case by simp
next
  case (Cons pivot rest)
  let ?k = "insertion_point cmp pivot run 0 (length run)"
  have "mset (binary_insertion cmp run (pivot # rest)) =
        mset (take ?k run @ pivot # drop ?k run) + mset rest"
    by (simp only: binary_insertion.simps Let_def Cons.IH)
  also have "\<dots> = add_mset pivot (mset (take ?k run) + mset (drop ?k run)) + mset rest" by simp
  also have "\<dots> = mset run + mset (pivot # rest)" by (simp only: mset_take_drop) simp
  finally show ?case .
qed

lemma mset_count_and_make_run: "mset (snd (count_and_make_run cmp xs)) = mset xs"
proof -
  have r: "mset (rev (take n zs) @ drop n zs) = mset zs" for n and zs :: "'a list"
    using mset_take_drop [of n zs] by simp
  show ?thesis
  proof (cases xs)
    case Nil
    then show ?thesis by (simp add: count_and_make_run_def)
  next
    case (Cons x0 t)
    show ?thesis
    proof (cases t)
      case Nil
      with Cons show ?thesis by (simp add: count_and_make_run_def)
    next
      case (Cons x1 rest)
      with \<open>xs = x0 # t\<close> have xs: "xs = x0 # x1 # rest" by simp
      have "snd (count_and_make_run cmp xs) = xs \<or>
            (\<exists>n. snd (count_and_make_run cmp xs) = rev (take n xs) @ drop n xs)"
        unfolding xs count_and_make_run_def Let_def list.case snd_conv
        by (cases "cmp x1 x0 < 0") (simp_all only: if_True if_False simp_thms, blast)
      then show ?thesis using r by auto
    qed
  qed
qed

lemma sort_permutes_short_array_sort: "sort_permutes short_array_sort"
  unfolding sort_permutes_def
proof (intro allI)
  fix cmp :: "'a \<Rightarrow> 'a \<Rightarrow> real" and xs :: "'a list"
  obtain n ys where c: "count_and_make_run cmp xs = (n, ys)" by (cases "count_and_make_run cmp xs")
  from mset_count_and_make_run [of cmp xs] c have ys: "mset ys = mset xs" by simp
  have "mset (binary_insertion cmp (take n ys) (drop n ys)) = mset xs"
    by (simp only: mset_binary_insertion mset_take_drop ys)
  then show "mset (short_array_sort cmp xs) = mset xs"
    by (simp add: short_array_sort_def c)
qed
section \<open>Properties of the score normalizer\<close>

lemma js_math_min_Min: "xs \<noteq> [] \<Longrightarrow> js_math_min xs = Min (set xs)"
proof (cases xs)
  case (Cons a list)
  show ?thesis unfolding Cons js_math_min_def list.sel by (rule Min.set_eq_fold [symmetric])
qed simp

lemma js_math_max_Max: "xs \<noteq> [] \<Longrightarrow> js_math_max xs = Max (set xs)"
proof (cases xs)
  case (Cons a list)
  show ?thesis unfolding Cons js_math_max_def list.sel by (rule Max.set_eq_fold [symmetric])
qed simp

lemma normalizeScores_results:
  "rs \<noteq> [] \<Longrightarrow> results (normalizeScores rs t) =
     filter (\<lambda>e. t \<le> normalizedScore e)
       (map (\<lambda>r. \<lparr>n_id = s_id r, n_score = s_score r,
                  normalizedScore =
                    (if Max (set (map s_score rs)) - Min (set (map s_score rs)) > 0
                     then (s_score r - Min (set (map s_score rs))) /
                          (Max (set (map s_score rs)) - Min (set (map s_score rs)))
                     else 1)\<rparr>) rs)"
proof -
  assume ne: "rs \<noteq> []"
  have a: "js_math_min (map s_score rs) = Min (set (map s_score rs))"
    using ne by (simp add: js_math_min_Min)
  have b: "js_math_max (map s_score rs) = Max (set (map s_score rs))"
    using ne by (simp add: js_math_max_Max)
  show ?thesis using ne by (simp add: normalizeScores_def Let_def a b cong: if_cong)
qed

lemma normalizeScores_entry:
  assumes "rs \<noteq> []" and "e \<in> set (results (normalizeScores rs t))"
  shows "\<exists>r \<in> set rs. n_id e = s_id r \<and> n_score e = s_score r \<and> t \<le> normalizedScore e \<and>
           normalizedScore e =
             (if Max (set (map s_score rs)) - Min (set (map s_score rs)) > 0
              then (s_score r - Min (set (map s_score rs))) /
                   (Max (set (map s_score rs)) - Min (set (map s_score rs)))
              else 1)"
  using assms(2) unfolding normalizeScores_results [OF assms(1)] by auto

lemma normalizeScores_empty: "results (normalizeScores [] t) = []"
  by (simp add: normalizeScores_def)

lemma normalizeScores_unit_interval:
  assumes "e \<in> set (results (normalizeScores rs t))"
  shows "0 \<le> normalizedScore e \<and> normalizedScore e \<le> 1"
proof (cases "rs = []")
  case True
  with assms show ?thesis by (simp add: normalizeScores_empty)
next
  case False
  let ?S = "set (map s_score rs)"
  let ?mn = "Min ?S" and ?mx = "Max ?S"
  from normalizeScores_entry [OF False assms] obtain r where r: "r \<in> set rs"
    and ns: "normalizedScore e = (if ?mx - ?mn > 0 then (s_score r - ?mn) / (?mx - ?mn) else 1)"
    by blast
  have fin: "finite ?S" by simp
  have mem: "s_score r \<in> ?S" using r by simp
  have lo: "?mn \<le> s_score r" using fin mem by (rule Min_le)
  have hi: "s_score r \<le> ?mx" using fin mem by (rule Max_ge)
  show ?thesis
  proof (cases "?mx - ?mn > 0")
    case True
    then have eq: "normalizedScore e = (s_score r - ?mn) / (?mx - ?mn)" using ns by simp
    have "0 \<le> (s_score r - ?mn) / (?mx - ?mn)"
      using True lo by (intro divide_nonneg_pos) simp_all
    moreover have "(s_score r - ?mn) / (?mx - ?mn) \<le> 1"
      using True hi by (simp add: divide_le_eq_1_pos)
    ultimately show ?thesis using eq by simp
  next
    case False
    then show ?thesis using ns by simp
  qed
qed

lemma ex_vector_scores_min: "js_math_min (map s_score ex_vector_scores) = 1 / 2"
  by (simp add: ex_vector_scores_def js_math_min_def)

lemma ex_vector_scores_max: "js_math_max (map s_score ex_vector_scores) = 9 / 10"
  by (simp add: ex_vector_scores_def js_math_max_def)

lemma ex_vector_scores_normalized:
  "results (normalizeScores ex_vector_scores MIN_VECTOR_SCORE) =
     [\<lparr>n_id = ''a'', n_score = 9 / 10, normalizedScore = 1\<rparr>]"
  unfolding normalizeScores_def Let_def ex_vector_scores_min ex_vector_scores_max
  by (simp add: ex_vector_scores_def MIN_VECTOR_SCORE_def)


section \<open>Properties of the rank fusion\<close>

subsection \<open>The two loops of the fusion\<close>

lemma vector_step_apply:
  "vector_step p nm i x m = map_set (v_changeId x) (vector_entry p nm i x) m"
  by (simp add: vector_step_def)

lemma keyword_step_apply:
  "keyword_step p nm i x m =
     map_set (c_id (change x)) (keyword_entry p nm i x (map_of m (c_id (change x)))) m"
  by (simp add: keyword_step_def)

lemma vector_loop_other:
  "c \<notin> v_changeId ` set vs \<Longrightarrow>
     map_of (forEach_index (vector_step p nm) vs i m) c = map_of m c"
  by (induction vs arbitrary: i m) (simp_all add: vector_step_apply map_of_map_set)

lemma vector_loop_at:
  "distinct (map v_changeId vs) \<Longrightarrow> j < length vs \<Longrightarrow>
     map_of (forEach_index (vector_step p nm) vs i m) (v_changeId (vs ! j)) =
       Some (vector_entry p nm (i + j) (vs ! j))"
proof (induction vs arbitrary: i m j)
  case Nil
  then show ?case by simp
next
  case (Cons x xs)
  show ?case
  proof (cases j)
    case 0
    have "v_changeId x \<notin> v_changeId ` set xs" using Cons.prems(1) by simp
    then have "map_of (forEach_index (vector_step p nm) xs (Suc i) (vector_step p nm i x m)) (v_changeId x)
        = map_of (vector_step p nm i x m) (v_changeId x)"
      by (rule vector_loop_other)
    also have "\<dots> = Some (vector_entry p nm i x)"
      by (simp add: vector_step_apply map_of_map_set)
    finally show ?thesis using 0 by simp
  next
    case (Suc j')
    with Cons show ?thesis by simp
  qed
qed

lemma vector_loop_keys:
  "fst ` set (forEach_index (vector_step p nm) vs i m) = v_changeId ` set vs \<union> fst ` set m"
  by (induction vs arbitrary: i m) (simp_all add: vector_step_apply keys_map_set)

lemma vector_loop_distinct:
  "distinct (map fst m) \<Longrightarrow> distinct (map fst (forEach_index (vector_step p nm) vs i m))"
  by (induction vs arbitrary: i m) (simp_all add: vector_step_apply distinct_map_set)

lemma keyword_loop_other:
  "c \<notin> (\<lambda>r. c_id (change r)) ` set ks \<Longrightarrow>
     map_of (forEach_index (keyword_step p nm) ks i m) c = map_of m c"
  by (induction ks arbitrary: i m) (simp_all add: keyword_step_apply map_of_map_set)

lemma keyword_loop_at:
  "distinct (map (\<lambda>r. c_id (change r)) ks) \<Longrightarrow> j < length ks \<Longrightarrow>
     map_of (forEach_index (keyword_step p nm) ks i m) (c_id (change (ks ! j))) =
       Some (keyword_entry p nm (i + j) (ks ! j) (map_of m (c_id (change (ks ! j)))))"
proof (induction ks arbitrary: i m j)
  case Nil
  then show ?case by simp
next
  case (Cons x xs)
  show ?case
  proof (cases j)
    case 0
    have "c_id (change x) \<notin> (\<lambda>r. c_id (change r)) ` set xs" using Cons.prems(1) by simp
    then have "map_of (forEach_index (keyword_step p nm) xs (Suc i) (keyword_step p nm i x m)) (c_id (change x))
        = map_of (keyword_step p nm i x m) (c_id (change x))"
      by (rule keyword_loop_other)
    also have "\<dots> = Some (keyword_entry p nm i x (map_of m (c_id (change x))))"
      by (simp add: keyword_step_apply map_of_map_set)
    finally show ?thesis using 0 by simp
  next
    case (Suc j')
    have j': "j' < length xs" using Cons.prems(2) Suc by simp
    have d: "distinct (map (\<lambda>r. c_id (change r)) xs)" using Cons.prems(1) by simp
    have nin: "c_id (change x) \<notin> (\<lambda>r. c_id (change r)) ` set xs" using Cons.prems(1) by simp
    have "xs ! j' \<in> set xs" using j' by simp
    then have "c_id (change (xs ! j')) \<in> (\<lambda>r. c_id (change r)) ` set xs" by (rule imageI)
    with nin have ne: "c_id (change (xs ! j')) \<noteq> c_id (change x)" by metis
    show ?thesis using Cons.IH [OF d j'] Suc ne
      by (simp add: keyword_step_apply map_of_map_set)
  qed
qed

lemma keyword_loop_keys:
  "fst ` set (forEach_index (keyword_step p nm) ks i m) =
     (\<lambda>r. c_id (change r)) ` set ks \<union> fst ` set m"
  by (induction ks arbitrary: i m) (simp_all add: keyword_step_apply keys_map_set)

lemma keyword_loop_distinct:
  "distinct (map fst m) \<Longrightarrow> distinct (map fst (forEach_index (keyword_step p nm) ks i m))"
  by (induction ks arbitrary: i m) (simp_all add: keyword_step_apply distinct_map_set)


lemma fusion_scoreMap_unfold:
  "fusion_scoreMap vs ks p nv nk =
     forEach_index (keyword_step p (normalizedMap nk)) ks 0
       (forEach_index (vector_step p (normalizedMap nv)) vs 0 [])"
  by (simp add: fusion_scoreMap_def)

lemma fusion_vector_only:
  assumes "distinct (map v_changeId vs)" and "i < length vs"
    and "v_changeId (vs ! i) \<notin> (\<lambda>r. c_id (change r)) ` set ks"
  shows "map_of (fusion_scoreMap vs ks p nv nk) (v_changeId (vs ! i)) =
           Some (vector_entry p (normalizedMap nv) i (vs ! i))"
  unfolding fusion_scoreMap_unfold
  using keyword_loop_other [OF assms(3)] vector_loop_at [OF assms(1,2), of p _ 0 "[]"] by simp

lemma fusion_keyword_only:
  assumes "distinct (map (\<lambda>r. c_id (change r)) ks)" and "j < length ks"
    and "c_id (change (ks ! j)) \<notin> v_changeId ` set vs"
  shows "map_of (fusion_scoreMap vs ks p nv nk) (c_id (change (ks ! j))) =
           Some (keyword_entry p (normalizedMap nk) j (ks ! j) None)"
  unfolding fusion_scoreMap_unfold
  using keyword_loop_at [OF assms(1,2), of p _ 0] vector_loop_other [OF assms(3), of p _ 0 "[]"]
  by simp

lemma fusion_both:
  assumes "distinct (map v_changeId vs)" and "i < length vs"
    and "distinct (map (\<lambda>r. c_id (change r)) ks)" and "j < length ks"
    and "v_changeId (vs ! i) = c_id (change (ks ! j))"
  shows "map_of (fusion_scoreMap vs ks p nv nk) (v_changeId (vs ! i)) =
           Some (keyword_entry p (normalizedMap nk) j (ks ! j)
                  (Some (vector_entry p (normalizedMap nv) i (vs ! i))))"
  unfolding fusion_scoreMap_unfold assms(5)
  using keyword_loop_at [OF assms(3,4), of p _ 0] vector_loop_at [OF assms(1,2), of p _ 0 "[]"]
  by (simp add: assms(5))

lemma fusion_keys:
  "fst ` set (fusion_scoreMap vs ks p nv nk) =
     v_changeId ` set vs \<union> (\<lambda>r. c_id (change r)) ` set ks"
  unfolding fusion_scoreMap_unfold by (simp add: keyword_loop_keys vector_loop_keys Un_commute)

lemma fusion_distinct: "distinct (map fst (fusion_scoreMap vs ks p nv nk))"
  unfolding fusion_scoreMap_unfold by (intro keyword_loop_distinct vector_loop_distinct) simp

lemma rrfScore_vector_entry:
  "rrfScore (vector_entry p nm i x) = vectorWeight p * (1 / (60 + real (i + 1)))"
  by (simp add: vector_entry_def RRF_K_def Let_def)

lemma rrfScore_keyword_entry_None:
  "rrfScore (keyword_entry p nm j x None) = keywordWeight p * (1 / (60 + real (j + 1)))"
  by (simp add: keyword_entry_def RRF_K_def Let_def)

lemma rrfScore_keyword_entry_Some:
  "rrfScore (keyword_entry p nm j x (Some e)) = rrfScore e + keywordWeight p * (1 / (60 + real (j + 1)))"
  by (simp add: keyword_entry_def RRF_K_def Let_def)


lemma vector_loop_cases:
  "map_of (forEach_index (vector_step p nm) vs i m) c = Some r \<Longrightarrow>
     (c \<notin> v_changeId ` set vs \<and> map_of m c = Some r) \<or>
     (\<exists>j < length vs. v_changeId (vs ! j) = c \<and> r = vector_entry p nm (i + j) (vs ! j))"
proof (induction vs arbitrary: i m)
  case Nil
  then show ?case by simp
next
  case (Cons x xs)
  from Cons.prems
  have "map_of (forEach_index (vector_step p nm) xs (Suc i) (vector_step p nm i x m)) c = Some r"
    by simp
  from Cons.IH [OF this] consider
    (old) "c \<notin> v_changeId ` set xs" "map_of (vector_step p nm i x m) c = Some r"
    | (new) j where "j < length xs" "v_changeId (xs ! j) = c" "r = vector_entry p nm (Suc i + j) (xs ! j)"
    by blast
  then show ?case
  proof cases
    case old
    show ?thesis
    proof (cases "c = v_changeId x")
      case True
      with old(2) have "r = vector_entry p nm i x" by (simp add: vector_step_apply map_of_map_set)
      with True have "0 < length (x # xs) \<and> v_changeId ((x # xs) ! 0) = c \<and>
          r = vector_entry p nm (i + 0) ((x # xs) ! 0)" by simp
      then show ?thesis by blast
    next
      case False
      with old show ?thesis by (simp add: vector_step_apply map_of_map_set)
    qed
  next
    case new
    then have "Suc j < length (x # xs) \<and> v_changeId ((x # xs) ! Suc j) = c \<and>
          r = vector_entry p nm (i + Suc j) ((x # xs) ! Suc j)" by simp
    then show ?thesis by blast
  qed
qed

lemma keyword_entry_fields:
  "keywordRank (keyword_entry p nm i x e) = Some (Suc i)"
  "normalizedKeywordScore (keyword_entry p nm i x e) = Some (nullish_or (map_of nm (c_id (change x))) 0)"
  "vectorRank (keyword_entry p nm i x e) = (case e of None \<Rightarrow> None | Some r \<Rightarrow> vectorRank r)"
  "normalizedVectorScore (keyword_entry p nm i x e) = (case e of None \<Rightarrow> None | Some r \<Rightarrow> normalizedVectorScore r)"
  by (simp_all add: keyword_entry_def Let_def split: option.split)

lemma vector_entry_fields:
  "vectorRank (vector_entry p nm i x) = Some (Suc i)"
  "normalizedVectorScore (vector_entry p nm i x) = Some (nullish_or (map_of nm (v_changeId x)) 0)"
  "keywordRank (vector_entry p nm i x) = None"
  "normalizedKeywordScore (vector_entry p nm i x) = None"
  by (simp_all add: vector_entry_def Let_def)

lemma keyword_loop_cases:
  "map_of (forEach_index (keyword_step p nm) ks i m) c = Some r \<Longrightarrow>
     (c \<notin> (\<lambda>r. c_id (change r)) ` set ks \<and> map_of m c = Some r) \<or>
     (c \<in> (\<lambda>r. c_id (change r)) ` set ks \<and>
      (\<exists>n. keywordRank r = Some (Suc n)) \<and>
      normalizedKeywordScore r = Some (nullish_or (map_of nm c) 0) \<and>
      vectorRank r = (case map_of m c of None \<Rightarrow> None | Some e \<Rightarrow> vectorRank e) \<and>
      normalizedVectorScore r = (case map_of m c of None \<Rightarrow> None | Some e \<Rightarrow> normalizedVectorScore e))"
proof (induction ks arbitrary: i m)
  case Nil
  then show ?case by simp
next
  case (Cons x xs)
  let ?m' = "keyword_step p nm i x m"
  let ?r1 = "keyword_entry p nm i x (map_of m (c_id (change x)))"
  from Cons.prems
  have "map_of (forEach_index (keyword_step p nm) xs (Suc i) ?m') c = Some r" by simp
  note ih = Cons.IH [OF this]
  show ?case
  proof (cases "c = c_id (change x)")
    case True
    have m': "map_of ?m' c = Some ?r1" using True by (simp add: keyword_step_apply map_of_map_set)
    have mem: "c \<in> (\<lambda>r. c_id (change r)) ` set (x # xs)" using True by simp
    from ih m' have
      "(\<exists>n. keywordRank r = Some (Suc n)) \<and>
       normalizedKeywordScore r = Some (nullish_or (map_of nm c) 0) \<and>
       vectorRank r = vectorRank ?r1 \<and> normalizedVectorScore r = normalizedVectorScore ?r1"
      using True by (auto simp: keyword_entry_fields)
    then show ?thesis using mem True by (simp add: keyword_entry_fields)
  next
    case False
    then have "map_of ?m' c = map_of m c" by (simp add: keyword_step_apply map_of_map_set)
    with ih False show ?thesis by simp
  qed
qed


lemma fusion_entry:
  assumes "map_of (fusion_scoreMap vs ks p nv nk) c = Some r"
  shows "(c \<in> v_changeId ` set vs \<longrightarrow>
            (\<exists>n. vectorRank r = Some (Suc n)) \<and>
            normalizedVectorScore r = Some (nullish_or (map_of (normalizedMap nv) c) 0)) \<and>
         (c \<notin> v_changeId ` set vs \<longrightarrow> vectorRank r = None) \<and>
         (c \<in> (\<lambda>r. c_id (change r)) ` set ks \<longrightarrow>
            (\<exists>n. keywordRank r = Some (Suc n)) \<and>
            normalizedKeywordScore r = Some (nullish_or (map_of (normalizedMap nk) c) 0)) \<and>
         (c \<notin> (\<lambda>r. c_id (change r)) ` set ks \<longrightarrow> keywordRank r = None)"
proof -
  let ?M1 = "forEach_index (vector_step p (normalizedMap nv)) vs 0 []"
  have v: "map_of ?M1 c = Some e \<Longrightarrow>
             c \<in> v_changeId ` set vs \<and> (\<exists>n. vectorRank e = Some (Suc n)) \<and>
             normalizedVectorScore e = Some (nullish_or (map_of (normalizedMap nv) c) 0) \<and>
             keywordRank e = None" for e
    using vector_loop_cases [of p "normalizedMap nv" vs 0 "[]" c e]
    by (auto simp: vector_entry_fields)
  have vn: "c \<notin> v_changeId ` set vs \<Longrightarrow> map_of ?M1 c = None"
    by (simp add: vector_loop_other)
  have vs: "c \<in> v_changeId ` set vs \<Longrightarrow> \<exists>e. map_of ?M1 c = Some e"
  proof -
    assume "c \<in> v_changeId ` set vs"
    then have "c \<in> fst ` set ?M1" by (simp add: vector_loop_keys)
    then have "map_of ?M1 c \<noteq> None" by (simp add: map_of_eq_None_iff)
    then show ?thesis by blast
  qed
  from assms have "map_of (forEach_index (keyword_step p (normalizedMap nk)) ks 0 ?M1) c = Some r"
    by (simp add: fusion_scoreMap_unfold)
  from keyword_loop_cases [OF this] consider
    (vonly) "c \<notin> (\<lambda>r. c_id (change r)) ` set ks" "map_of ?M1 c = Some r"
    | (kw) "c \<in> (\<lambda>r. c_id (change r)) ` set ks" "\<exists>n. keywordRank r = Some (Suc n)"
        "normalizedKeywordScore r = Some (nullish_or (map_of (normalizedMap nk) c) 0)"
        "vectorRank r = (case map_of ?M1 c of None \<Rightarrow> None | Some e \<Rightarrow> vectorRank e)"
        "normalizedVectorScore r = (case map_of ?M1 c of None \<Rightarrow> None | Some e \<Rightarrow> normalizedVectorScore e)"
    by blast
  then show ?thesis
  proof cases
    case vonly
    from v [OF vonly(2)] vonly(1) show ?thesis by simp
  next
    case kw
    show ?thesis
    proof (cases "c \<in> v_changeId ` set vs")
      case True
      from vs [OF True] obtain e where e: "map_of ?M1 c = Some e" by blast
      from v [OF e] kw e True show ?thesis by simp
    next
      case False
      from vn [OF False] kw False show ?thesis by simp
    qed
  qed
qed

lemma normalizedMap_bounds:
  assumes "\<forall>e \<in> set (results nv). 0 \<le> normalizedScore e \<and> normalizedScore e \<le> 1"
  shows "0 \<le> nullish_or (map_of (normalizedMap nv) c) 0 \<and>
         nullish_or (map_of (normalizedMap nv) c) 0 \<le> 1"
proof (cases "map_of (normalizedMap nv) c")
  case None
  then show ?thesis by (simp add: nullish_or_def)
next
  case (Some x)
  then have "(c, x) \<in> set (map (\<lambda>r. (n_id r, normalizedScore r)) (results nv))"
    unfolding normalizedMap_def by (rule map_of_js_new_Map)
  then obtain e where "e \<in> set (results nv)" "x = normalizedScore e" by auto
  with assms Some show ?thesis by (simp add: nullish_or_def)
qed

lemma overlap_factor_bounds:
  fixes a b :: real
  assumes "0 \<le> a" "a \<le> 1" "0 \<le> b" "b \<le> 1"
  shows "1 \<le> 1 + 0.2 * min 1 (a * b) \<and> 1 + 0.2 * min 1 (a * b) \<le> 1.2"
proof -
  have "0 \<le> a * b" using assms by simp
  then have "0 \<le> min 1 (a * b)" by simp
  moreover have "min 1 (a * b) \<le> 1" by simp
  ultimately show ?thesis by simp
qed

lemma set_reciprocalRankFusion:
  "set (reciprocalRankFusion vs ks p nv nk) =
     (\<lambda>(c, r). boost_step r) ` set (fusion_scoreMap vs ks p nv nk)"
  by (simp add: reciprocalRankFusion_def Let_def set_js_sort)


lemma normalizeScores_dropped:
  assumes d: "distinct (map s_id rs)" and i: "i < length rs"
    and low: "(if Max (set (map s_score rs)) - Min (set (map s_score rs)) > 0
               then (s_score (rs ! i) - Min (set (map s_score rs))) /
                    (Max (set (map s_score rs)) - Min (set (map s_score rs)))
               else 1) < t"
  shows "s_id (rs ! i) \<notin> n_id ` set (results (normalizeScores rs t))"
proof
  assume "s_id (rs ! i) \<in> n_id ` set (results (normalizeScores rs t))"
  then obtain e where e: "e \<in> set (results (normalizeScores rs t))" "n_id e = s_id (rs ! i)"
    by auto
  have ne: "rs \<noteq> []" using i by auto
  from normalizeScores_entry [OF ne e(1)] obtain r where r: "r \<in> set rs" "n_id e = s_id r"
    "t \<le> normalizedScore e"
    "normalizedScore e =
       (if Max (set (map s_score rs)) - Min (set (map s_score rs)) > 0
        then (s_score r - Min (set (map s_score rs))) /
             (Max (set (map s_score rs)) - Min (set (map s_score rs)))
        else 1)" by blast
  have "inj_on s_id (set rs)" using d by (simp add: distinct_map)
  moreover have "rs ! i \<in> set rs" using i by simp
  moreover have "s_id r = s_id (rs ! i)" using r(2) e(2) by simp
  ultimately have eq: "r = rs ! i" using r(1) by (auto dest: inj_onD)
  define X where "X = (if Max (set (map s_score rs)) - Min (set (map s_score rs)) > 0
               then (s_score (rs ! i) - Min (set (map s_score rs))) /
                    (Max (set (map s_score rs)) - Min (set (map s_score rs)))
               else 1)"
  from r(4) have "normalizedScore e = X" unfolding eq X_def .
  moreover from low have "X < t" unfolding X_def .
  ultimately show False using r(3) by simp
qed

lemma js_new_Map_lookup_None: "c \<notin> n_id ` set (results ns) \<Longrightarrow> map_of (normalizedMap ns) c = None"
  unfolding normalizedMap_def by (rule js_new_Map_None) (simp add: image_image)


lemma vectorEntries_facts:
  "map s_id (vectorEntries vs) = map v_changeId vs"
  "map s_score (vectorEntries vs) = map v_score vs"
  "length (vectorEntries vs) = length vs"
  "i < length vs \<Longrightarrow> vectorEntries vs ! i = \<lparr>s_id = v_changeId (vs ! i), s_score = v_score (vs ! i)\<rparr>"
  by (simp_all add: vectorEntries_def)

lemma keywordEntries_facts:
  "map s_id (keywordEntries ks) = map (\<lambda>r. c_id (change r)) ks"
  "map s_score (keywordEntries ks) = map rank ks"
  "length (keywordEntries ks) = length ks"
  "j < length ks \<Longrightarrow> keywordEntries ks ! j = \<lparr>s_id = c_id (change (ks ! j)), s_score = rank (ks ! j)\<rparr>"
  by (simp_all add: keywordEntries_def)

lemma boost_step_zero_vector:
  "normalizedVectorScore r = Some 0 \<Longrightarrow> boost_step r = r"
  by (simp add: boost_step_def overlapBoost_def nullish_or_def)

lemma boost_step_zero_keyword:
  "normalizedKeywordScore r = Some 0 \<Longrightarrow> boost_step r = r"
  by (simp add: boost_step_def overlapBoost_def nullish_or_def)

lemma fuse_legs_member:
  assumes "map_of (fusion_scoreMap vs ks p (normalizeScores (vectorEntries vs) MIN_VECTOR_SCORE)
                     (normalizeScores (keywordEntries ks) MIN_KEYWORD_SCORE)) c = Some r"
  shows "boost_step r \<in> set (fuse_legs vs ks p)"
proof -
  from assms have "(c, r) \<in> set (fusion_scoreMap vs ks p (normalizeScores (vectorEntries vs) MIN_VECTOR_SCORE)
                     (normalizeScores (keywordEntries ks) MIN_KEYWORD_SCORE))"
    by (rule map_of_SomeD)
  then show ?thesis
    unfolding fuse_legs_def Let_def set_reciprocalRankFusion by force
qed

lemma rrfScore_keyword_entry:
  "rrfScore (keyword_entry p nm j x e) =
     (case e of None \<Rightarrow> 0 | Some e' \<Rightarrow> rrfScore e') + keywordWeight p * (1 / (60 + real (j + 1)))"
  by (simp add: keyword_entry_def RRF_K_def Let_def split: option.split)

lemma threshold_vector_leg:
  assumes dv: "distinct (map v_changeId vs)"
    and dk: "distinct (map (\<lambda>r. c_id (change r)) ks)"
    and i: "i < length vs"
    and low: "(if Max (set (map v_score vs)) - Min (set (map v_score vs)) > 0
               then (v_score (vs ! i) - Min (set (map v_score vs))) /
                    (Max (set (map v_score vs)) - Min (set (map v_score vs)))
               else 1) < MIN_VECTOR_SCORE"
  shows "v_changeId (vs ! i) \<notin> n_id ` set (results (normalizeScores (vectorEntries vs) MIN_VECTOR_SCORE)) \<and>
         (\<exists>r. map_of (fusion_scoreMap vs ks params
                        (normalizeScores (vectorEntries vs) MIN_VECTOR_SCORE)
                        (normalizeScores (keywordEntries ks) MIN_KEYWORD_SCORE)) (v_changeId (vs ! i)) = Some r \<and>
              vectorRank r = Some (i + 1) \<and> normalizedVectorScore r = Some 0 \<and>
              rrfScore r = vectorWeight params * (1 / (60 + real (i + 1))) +
                (case keywordRank r of None \<Rightarrow> 0
                 | Some n \<Rightarrow> keywordWeight params * (1 / (60 + real n))) \<and>
              r \<in> set (fuse_legs vs ks params))"
proof -
  let ?NV = "normalizeScores (vectorEntries vs) MIN_VECTOR_SCORE"
  let ?NK = "normalizeScores (keywordEntries ks) MIN_KEYWORD_SCORE"
  let ?c = "v_changeId (vs ! i)"
  let ?M = "fusion_scoreMap vs ks params ?NV ?NK"
  have d': "distinct (map s_id (vectorEntries vs))" using dv by (simp only: vectorEntries_facts)
  have i': "i < length (vectorEntries vs)" using i by (simp only: vectorEntries_facts)
  have sc: "s_score (vectorEntries vs ! i) = v_score (vs ! i)"
    and sid: "s_id (vectorEntries vs ! i) = ?c" using i by (simp_all add: vectorEntries_facts)
  have low': "(if Max (set (map s_score (vectorEntries vs))) - Min (set (map s_score (vectorEntries vs))) > 0
               then (s_score (vectorEntries vs ! i) - Min (set (map s_score (vectorEntries vs)))) /
                    (Max (set (map s_score (vectorEntries vs))) - Min (set (map s_score (vectorEntries vs))))
               else 1) < MIN_VECTOR_SCORE"
    unfolding vectorEntries_facts(2) sc by (rule low)
  have dropped: "?c \<notin> n_id ` set (results ?NV)"
    using normalizeScores_dropped [OF d' i' low'] unfolding sid .
  then have nm: "map_of (normalizedMap ?NV) ?c = None" by (rule js_new_Map_lookup_None)
  let ?ve = "vector_entry params (normalizedMap ?NV) i (vs ! i)"
  have ve: "vectorRank ?ve = Some (i + 1)" "normalizedVectorScore ?ve = Some 0"
    "rrfScore ?ve = vectorWeight params * (1 / (60 + real (i + 1)))" "keywordRank ?ve = None"
    by (simp_all add: vector_entry_fields rrfScore_vector_entry nm nullish_or_def)
  have ex: "\<exists>r. map_of ?M ?c = Some r \<and>
              vectorRank r = Some (i + 1) \<and> normalizedVectorScore r = Some 0 \<and>
              rrfScore r = vectorWeight params * (1 / (60 + real (i + 1))) +
                (case keywordRank r of None \<Rightarrow> 0
                 | Some n \<Rightarrow> keywordWeight params * (1 / (60 + real n)))"
  proof (cases "?c \<in> (\<lambda>r. c_id (change r)) ` set ks")
    case False
    from fusion_vector_only [OF dv i False] have "map_of ?M ?c = Some ?ve" .
    with ve show ?thesis by simp
  next
    case True
    then obtain j where j: "j < length ks" "c_id (change (ks ! j)) = ?c"
      by (auto simp: in_set_conv_nth)
    let ?ke = "keyword_entry params (normalizedMap ?NK) j (ks ! j) (Some ?ve)"
    from fusion_both [OF dv i dk j(1) j(2) [symmetric]] have "map_of ?M ?c = Some ?ke" .
    moreover have "vectorRank ?ke = Some (i + 1)" "normalizedVectorScore ?ke = Some 0"
      "keywordRank ?ke = Some (Suc j)"
      "rrfScore ?ke = vectorWeight params * (1 / (60 + real (i + 1))) +
                      keywordWeight params * (1 / (60 + real (j + 1)))"
      by (simp_all add: keyword_entry_fields rrfScore_keyword_entry ve)
    ultimately show ?thesis by simp
  qed
  then obtain r where r: "map_of ?M ?c = Some r" "vectorRank r = Some (i + 1)"
    "normalizedVectorScore r = Some 0"
    "rrfScore r = vectorWeight params * (1 / (60 + real (i + 1))) +
                (case keywordRank r of None \<Rightarrow> 0
                 | Some n \<Rightarrow> keywordWeight params * (1 / (60 + real n)))" by blast
  have "boost_step r \<in> set (fuse_legs vs ks params)" using r(1) by (rule fuse_legs_member)
  then have "r \<in> set (fuse_legs vs ks params)" using boost_step_zero_vector [OF r(3)] by simp
  with dropped r show ?thesis by blast
qed


lemma threshold_keyword_leg:
  assumes dv: "distinct (map v_changeId vs)"
    and dk: "distinct (map (\<lambda>r. c_id (change r)) ks)"
    and j: "j < length ks"
    and low: "(if Max (set (map rank ks)) - Min (set (map rank ks)) > 0
               then (rank (ks ! j) - Min (set (map rank ks))) /
                    (Max (set (map rank ks)) - Min (set (map rank ks)))
               else 1) < MIN_KEYWORD_SCORE"
  shows "c_id (change (ks ! j)) \<notin> n_id ` set (results (normalizeScores (keywordEntries ks) MIN_KEYWORD_SCORE)) \<and>
         (\<exists>r. map_of (fusion_scoreMap vs ks params
                        (normalizeScores (vectorEntries vs) MIN_VECTOR_SCORE)
                        (normalizeScores (keywordEntries ks) MIN_KEYWORD_SCORE)) (c_id (change (ks ! j))) = Some r \<and>
              keywordRank r = Some (j + 1) \<and> normalizedKeywordScore r = Some 0 \<and>
              rrfScore r =
                (case vectorRank r of None \<Rightarrow> 0
                 | Some n \<Rightarrow> vectorWeight params * (1 / (60 + real n))) +
                keywordWeight params * (1 / (60 + real (j + 1))) \<and>
              r \<in> set (fuse_legs vs ks params))"
proof -
  let ?NV = "normalizeScores (vectorEntries vs) MIN_VECTOR_SCORE"
  let ?NK = "normalizeScores (keywordEntries ks) MIN_KEYWORD_SCORE"
  let ?c = "c_id (change (ks ! j))"
  let ?M = "fusion_scoreMap vs ks params ?NV ?NK"
  have d': "distinct (map s_id (keywordEntries ks))" using dk by (simp only: keywordEntries_facts)
  have j': "j < length (keywordEntries ks)" using j by (simp only: keywordEntries_facts)
  have sc: "s_score (keywordEntries ks ! j) = rank (ks ! j)"
    and sid: "s_id (keywordEntries ks ! j) = ?c" using j by (simp_all add: keywordEntries_facts)
  have low': "(if Max (set (map s_score (keywordEntries ks))) - Min (set (map s_score (keywordEntries ks))) > 0
               then (s_score (keywordEntries ks ! j) - Min (set (map s_score (keywordEntries ks)))) /
                    (Max (set (map s_score (keywordEntries ks))) - Min (set (map s_score (keywordEntries ks))))
               else 1) < MIN_KEYWORD_SCORE"
    unfolding keywordEntries_facts(2) sc by (rule low)
  have dropped: "?c \<notin> n_id ` set (results ?NK)"
    using normalizeScores_dropped [OF d' j' low'] unfolding sid .
  then have nm: "map_of (normalizedMap ?NK) ?c = None" by (rule js_new_Map_lookup_None)
  have ex: "\<exists>r. map_of ?M ?c = Some r \<and>
              keywordRank r = Some (j + 1) \<and> normalizedKeywordScore r = Some 0 \<and>
              rrfScore r =
                (case vectorRank r of None \<Rightarrow> 0
                 | Some n \<Rightarrow> vectorWeight params * (1 / (60 + real n))) +
                keywordWeight params * (1 / (60 + real (j + 1)))"
  proof (cases "?c \<in> v_changeId ` set vs")
    case False
    let ?ke = "keyword_entry params (normalizedMap ?NK) j (ks ! j) None"
    from fusion_keyword_only [OF dk j False] have "map_of ?M ?c = Some ?ke" .
    moreover have "keywordRank ?ke = Some (j + 1)" "normalizedKeywordScore ?ke = Some 0"
      "vectorRank ?ke = None"
      "rrfScore ?ke = keywordWeight params * (1 / (60 + real (j + 1)))"
      by (simp_all add: keyword_entry_fields rrfScore_keyword_entry nm nullish_or_def)
    ultimately show ?thesis by simp
  next
    case True
    then obtain i where i: "i < length vs" "v_changeId (vs ! i) = ?c"
      by (auto simp: in_set_conv_nth)
    let ?ve = "vector_entry params (normalizedMap ?NV) i (vs ! i)"
    let ?ke = "keyword_entry params (normalizedMap ?NK) j (ks ! j) (Some ?ve)"
    from fusion_both [OF dv i(1) dk j i(2)] have "map_of ?M ?c = Some ?ke" by (simp only: i(2))
    moreover have "keywordRank ?ke = Some (j + 1)" "normalizedKeywordScore ?ke = Some 0"
      "vectorRank ?ke = Some (Suc i)"
      "rrfScore ?ke = vectorWeight params * (1 / (60 + real (Suc i))) +
                      keywordWeight params * (1 / (60 + real (j + 1)))"
      by (simp_all add: keyword_entry_fields vector_entry_fields rrfScore_keyword_entry
            rrfScore_vector_entry nm nullish_or_def)
    ultimately show ?thesis by simp
  qed
  then obtain r where r: "map_of ?M ?c = Some r" "keywordRank r = Some (j + 1)"
    "normalizedKeywordScore r = Some 0"
    "rrfScore r =
                (case vectorRank r of None \<Rightarrow> 0
                 | Some n \<Rightarrow> vectorWeight params * (1 / (60 + real n))) +
                keywordWeight params * (1 / (60 + real (j + 1)))" by blast
  have "boost_step r \<in> set (fuse_legs vs ks params)" using r(1) by (rule fuse_legs_member)
  then have "r \<in> set (fuse_legs vs ks params)" using boost_step_zero_keyword [OF r(3)] by simp
  with dropped r show ?thesis by blast
qed


section \<open>Evaluation of the examples\<close>

lemma normalizeScores_two:
  "normalizeScores [\<lparr>s_id = i1, s_score = x\<rparr>, \<lparr>s_id = i2, s_score = y\<rparr>] t =
     \<lparr>results = filter (\<lambda>r. t \<le> normalizedScore r)
        [\<lparr>n_id = i1, n_score = x, normalizedScore = (if max x y - min x y > 0 then (x - min x y) / (max x y - min x y) else 1)\<rparr>,
         \<lparr>n_id = i2, n_score = y, normalizedScore = (if max x y - min x y > 0 then (y - min x y) / (max x y - min x y) else 1)\<rparr>],
      n_min = min x y, n_max = max x y\<rparr>"
  by (simp add: normalizeScores_def js_math_min_def js_math_max_def Let_def min.commute max.commute)

lemma ex2_nv_results:
  "results ex2_nv = [\<lparr>n_id = ''b'', n_score = 9 / 10, normalizedScore = 1\<rparr>]"
  unfolding ex2_nv_def vectorEntries_def ex2_vs_def list.map VectorSearchResult.simps normalizeScores_two
  by (simp add: MIN_VECTOR_SCORE_def)

lemma ex2_nk_results:
  "results ex2_nk = [\<lparr>n_id = ''b'', n_score = 2, normalizedScore = 1\<rparr>]"
  unfolding ex2_nk_def keywordEntries_def ex2_ks_def list.map KeywordResult.simps normalizeScores_two ex_change_def
  by (simp add: MIN_KEYWORD_SCORE_def)

lemma ex2_maps: "normalizedMap ex2_nv = [(''b'', 1)]" "normalizedMap ex2_nk = [(''b'', 1)]"
  by (simp_all add: normalizedMap_def ex2_nv_results ex2_nk_results js_new_Map_def)

lemma ex2_lookup: "map_of (fusion_scoreMap ex2_vs ex2_ks ex_params ex2_nv ex2_nk) ''b'' = Some ex2_b"
proof -
  have dv: "distinct (map v_changeId ex2_vs)" by (simp add: ex2_vs_def)
  have dk: "distinct (map (\<lambda>r. c_id (change r)) ex2_ks)" by (simp add: ex2_ks_def ex_change_def)
  have "v_changeId (ex2_vs ! 0) = c_id (change (ex2_ks ! Suc 0))"
    by (simp add: ex2_vs_def ex2_ks_def ex_change_def)
  from fusion_both [OF dv _ dk _ this, of ex_params ex2_nv ex2_nk]
  have "map_of (fusion_scoreMap ex2_vs ex2_ks ex_params ex2_nv ex2_nk) (v_changeId (ex2_vs ! 0)) =
          Some (keyword_entry ex_params (normalizedMap ex2_nk) (Suc 0) (ex2_ks ! Suc 0)
                 (Some (vector_entry ex_params (normalizedMap ex2_nv) 0 (ex2_vs ! 0))))"
    by (simp add: ex2_vs_def ex2_ks_def)
  moreover have "keyword_entry ex_params (normalizedMap ex2_nk) (Suc 0) (ex2_ks ! Suc 0)
                 (Some (vector_entry ex_params (normalizedMap ex2_nv) 0 (ex2_vs ! 0))) = ex2_b"
    by (simp add: ex2_maps keyword_entry_def vector_entry_def ex2_vs_def ex2_ks_def ex_change_def
          ex_params_def ex2_b_def RRF_K_def nullish_or_def Let_def)
  moreover have "v_changeId (ex2_vs ! 0) = ''b''" by (simp add: ex2_vs_def)
  ultimately show ?thesis by simp
qed


lemma ex_nv_results:
  "results (normalizeScores (vectorEntries ex_vs) MIN_VECTOR_SCORE) =
     [\<lparr>n_id = ''a'', n_score = 9 / 10, normalizedScore = 1\<rparr>]"
  unfolding vectorEntries_def ex_vs_def list.map VectorSearchResult.simps normalizeScores_two
  by (simp add: MIN_VECTOR_SCORE_def)

lemma ex_nv_map: "normalizedMap (normalizeScores (vectorEntries ex_vs) MIN_VECTOR_SCORE) = [(''a'', 1)]"
  by (simp add: normalizedMap_def ex_nv_results js_new_Map_def)

lemma empty_nk_map: "normalizedMap (normalizeScores (keywordEntries []) MIN_KEYWORD_SCORE) = []"
  by (simp add: normalizedMap_def keywordEntries_def normalizeScores_def js_new_Map_def)

lemma ex_vector_only_scoreMap:
  "fusion_scoreMap ex_vs [] ex_params (normalizeScores (vectorEntries ex_vs) MIN_VECTOR_SCORE)
      (normalizeScores (keywordEntries []) MIN_KEYWORD_SCORE) =
     [(''a'', \<lparr>changeId = ''a'', vectorRank = Some 1, keywordRank = None,
              vectorScore = Some (9 / 10), keywordScore = None,
              normalizedVectorScore = Some 1, normalizedKeywordScore = None,
              rrfScore = 6 / 10 * (1 / 61), rerankerScore = None\<rparr>),
      (''b'', \<lparr>changeId = ''b'', vectorRank = Some 2, keywordRank = None,
              vectorScore = Some (5 / 10), keywordScore = None,
              normalizedVectorScore = Some 0, normalizedKeywordScore = None,
              rrfScore = 6 / 10 * (1 / 62), rerankerScore = None\<rparr>)]"
  unfolding fusion_scoreMap_unfold ex_nv_map empty_nk_map
  by (simp add: ex_vs_def ex_params_def vector_step_apply vector_entry_def RRF_K_def
        nullish_or_def Let_def)


lemma ex_vs_minmax: "Max (set (map v_score ex_vs)) = 9 / 10" "Min (set (map v_score ex_vs)) = 1 / 2"
  by (simp_all add: ex_vs_def)


lemma ex_equal_scores_normalized:
  "results (normalizeScores ex_equal_scores MIN_VECTOR_SCORE) =
     [\<lparr>n_id = ''x'', n_score = 5 / 10, normalizedScore = 1\<rparr>,
      \<lparr>n_id = ''y'', n_score = 5 / 10, normalizedScore = 1\<rparr>]"
  unfolding ex_equal_scores_def normalizeScores_two by (simp add: MIN_VECTOR_SCORE_def)


lemma ex_ks_minmax: "Max (set (map rank ex_ks)) = 2" "Min (set (map rank ex_ks)) = 1"
  by (simp_all add: ex_ks_def)

lemma ex2_lookup_a: "map_of (fusion_scoreMap ex2_vs ex2_ks ex_params ex2_nv ex2_nk) ''a'' = Some ex2_a"
proof -
  have dv: "distinct (map v_changeId ex2_vs)" by (simp add: ex2_vs_def)
  have i: "Suc 0 < length ex2_vs" by (simp add: ex2_vs_def)
  have n: "v_changeId (ex2_vs ! Suc 0) \<notin> (\<lambda>r. c_id (change r)) ` set ex2_ks"
    by (simp add: ex2_vs_def ex2_ks_def ex_change_def)
  from fusion_vector_only [OF dv i n, of ex_params ex2_nv ex2_nk]
  have "map_of (fusion_scoreMap ex2_vs ex2_ks ex_params ex2_nv ex2_nk) (v_changeId (ex2_vs ! Suc 0)) =
          Some (vector_entry ex_params (normalizedMap ex2_nv) (Suc 0) (ex2_vs ! Suc 0))" .
  moreover have "vector_entry ex_params (normalizedMap ex2_nv) (Suc 0) (ex2_vs ! Suc 0) = ex2_a"
    by (simp add: ex2_maps vector_entry_def ex2_vs_def ex_params_def ex2_a_def RRF_K_def
          nullish_or_def Let_def)
  moreover have "v_changeId (ex2_vs ! Suc 0) = ''a''" by (simp add: ex2_vs_def)
  ultimately show ?thesis by simp
qed


section \<open>Properties of the query parsers\<close>

lemma js_split_ws_chars: "t \<in> set (js_split_ws s) \<Longrightarrow> set t \<subseteq> set s"
proof (induction s arbitrary: t rule: js_split_ws.induct)
  case (1 s)
  let ?field = "takeWhile (\<lambda>c. \<not> js_space c) s"
  let ?rest = "dropWhile (\<lambda>c. \<not> js_space c) s"
  have f: "set ?field \<subseteq> set s" by (auto dest: set_takeWhileD)
  show ?case
  proof (cases "?rest = []")
    case True
    with "1.prems" have "t = ?field" by (subst (asm) js_split_ws.simps) (simp add: Let_def)
    with f show ?thesis by simp
  next
    case False
    with "1.prems" have "t = ?field \<or> t \<in> set (js_split_ws (dropWhile js_space ?rest))"
      by (subst (asm) js_split_ws.simps) (auto simp: Let_def split: if_splits)
    then show ?thesis
    proof
      assume "t = ?field" with f show ?thesis by simp
    next
      assume "t \<in> set (js_split_ws (dropWhile js_space ?rest))"
      from "1.IH" [OF refl refl False this]
      have "set t \<subseteq> set (dropWhile js_space ?rest)" .
      also have "\<dots> \<subseteq> set ?rest" by (auto dest: set_dropWhileD)
      also have "\<dots> \<subseteq> set s" by (auto dest: set_dropWhileD)
      finally show ?thesis .
    qed
  qed
qed

lemma js_trim_chars: "set (js_trim s) \<subseteq> set s"
  unfolding js_trim_def by (auto dest!: set_dropWhileD)

lemma fts_terms_clean: "t \<in> set (fts_terms query) \<Longrightarrow> c \<in> set t \<Longrightarrow> \<not> fts_special c"
proof -
  assume t: "t \<in> set (fts_terms query)" and c: "c \<in> set t"
  let ?m = "map (\<lambda>c. if fts_special c then CHR '' '' else c) query"
  from t have "set t \<subseteq> set (js_trim ?m)" unfolding fts_terms_def by (rule js_split_ws_chars)
  with c js_trim_chars have "c \<in> set ?m" by blast
  then show ?thesis by (auto simp: fts_special_def split: if_splits)
qed

lemma js_join_chars: "set (js_join sep xs) \<subseteq> set sep \<union> \<Union> (set ` set xs)"
  by (induction sep xs rule: js_join.induct) auto

lemma js_join_nonempty: "xs \<noteq> [] \<Longrightarrow> hd xs \<noteq> [] \<Longrightarrow> js_join sep xs \<noteq> []"
  by (induction sep xs rule: js_join.induct) auto


lemma ex_fts_terms: "fts_terms ''a - (b)'' = [''a'', ''b'']"
  by (simp add: fts_terms_def fts_special_def js_trim_def js_space_def js_split_ws.simps)


lemma prefix_ci_take: "prefix_ci w s = (take (length w) (map ascii_fold s) = w)"
  by (simp add: prefix_ci_def take_map)

lemma regex_search_word:
  "w \<noteq> [] \<Longrightarrow> (regex_search (match_word w) s \<noteq> None) = js_includes (map ascii_fold s) w"
  by (induction s) (auto simp: match_word_def prefix_ci_take)

lemma parse_yesterday:
  assumes "js_includes (map ascii_fold q) ''yesterday''"
    and "\<not> js_includes (map ascii_fold q) ''today''"
  shows "parseTimeExpression tnow q = Some \<lparr>t_start = tnow - 172800000, t_end = tnow - 86400000\<rparr>"
proof -
  have y: "regex_search (match_word ''yesterday'') q \<noteq> None"
    using assms(1) regex_search_word [of "''yesterday''" q] by simp
  have t: "regex_search (match_word ''today'') q = None"
    using assms(2) regex_search_word [of "''today''" q]
    by (cases "regex_search (match_word ''today'') q") simp_all
  show ?thesis unfolding parseTimeExpression_def using y t by (simp add: ms_day_def)
qed

lemma ex_query_patterns: "extractFilePatterns ''fixed bug in parser.ts yesterday'' = [''**/parser.ts*'']"
  by code_simp

lemma ex_query_words:
  "js_includes (map ascii_fold ''fixed bug in parser.ts yesterday'') ''yesterday''"
  "\<not> js_includes (map ascii_fold ''fixed bug in parser.ts yesterday'') ''today''"
  by code_simp+

lemma not_previous_day:
  "tnow - 2 * ms_day \<noteq> local_day_start tz tnow - ms_day"
proof -
  have "(tnow + tz) mod ms_day < ms_day" by (simp add: ms_day_def)
  then show ?thesis by (simp add: local_day_start_def)
qed

lemma ex_fts_terms2: "fts_terms ''fix parser'' = [''fix'', ''parser'']"
  by (simp add: fts_terms_def fts_special_def js_trim_def js_space_def js_split_ws.simps)


section \<open>Properties of the search engine\<close>

lemma fuse_legs_empty: "fuse_legs [] [] p = []"
  by (simp add: fuse_legs_def reciprocalRankFusion_def fusion_scoreMap_def js_sort_def Let_def)

lemma search_from_legs_empty: "search_from_legs e query [] [] = Inr []"
  by (simp add: search_from_legs_def fuse_legs_empty hydrateResults_def Let_def)


lemma ex_env_fields:
  "getChange ex_env c = (if c = ''b'' \<or> c = ''c'' then Inr (Some (ex_change c)) else Inr None)"
  "embedQuery ex_env q = Inl (Error ''ECONNREFUSED'')"
  "searchChanges ex_env w q k = Inr ex_ks"
  "workspaceId ex_env = ''ws''" "now ex_env = 1000000000000"
  "useReranker ex_env = False" "reranker_isEnabled ex_env = False"
  "array_sort ex_env = short_array_sort"
  by (simp_all add: ex_env_def)

lemma ex_env_empty_fields:
  "getChange ex_env_empty c = (if c = ''b'' \<or> c = ''c'' then Inr (Some (ex_change c)) else Inr None)"
  "embedQuery ex_env_empty q = Inl (Error ''ECONNREFUSED'')"
  "searchChanges ex_env_empty w q k = Inr []"
  by (simp_all add: ex_env_empty_def ex_env_def)


lemma map_set_subset: "set (map_set k v m) \<subseteq> insert (k, v) (set m)"
  by (induction m) (auto split: if_splits)

lemma keyword_loop_invariant:
  assumes init: "\<And>c r. (c, r) \<in> set m \<Longrightarrow> Q c r"
    and step: "\<And>i x ex. x \<in> set ks \<Longrightarrow>
                 (case ex of None \<Rightarrow> True | Some r \<Rightarrow> Q (c_id (change x)) r) \<Longrightarrow>
                 Q (c_id (change x)) (keyword_entry p nm i x ex)"
    and mem: "(c, r) \<in> set (forEach_index (keyword_step p nm) ks i m)"
  shows "Q c r"
  using assms
proof (induction ks arbitrary: i m)
  case Nil
  then show ?case by simp
next
  case (Cons x xs)
  let ?m' = "keyword_step p nm i x m"
  have ex: "case map_of m (c_id (change x)) of None \<Rightarrow> True | Some r \<Rightarrow> Q (c_id (change x)) r"
    using Cons.prems(1) by (auto split: option.split dest: map_of_SomeD)
  have new: "Q (c_id (change x)) (keyword_entry p nm i x (map_of m (c_id (change x))))"
    using Cons.prems(2) [of x "map_of m (c_id (change x))" i] ex by simp
  have init': "\<And>c r. (c, r) \<in> set ?m' \<Longrightarrow> Q c r"
  proof -
    fix c r assume "(c, r) \<in> set ?m'"
    then have "(c, r) = (c_id (change x), keyword_entry p nm i x (map_of m (c_id (change x)))) \<or>
               (c, r) \<in> set m"
      using map_set_subset [of "c_id (change x)" _ m] by (auto simp: keyword_step_apply)
    then show "Q c r" using new Cons.prems(1) by auto
  qed
  have step': "\<And>i x' ex. x' \<in> set xs \<Longrightarrow>
                 (case ex of None \<Rightarrow> True | Some r \<Rightarrow> Q (c_id (change x')) r) \<Longrightarrow>
                 Q (c_id (change x')) (keyword_entry p nm i x' ex)"
    using Cons.prems(2) by simp
  from Cons.prems(3) have "(c, r) \<in> set (forEach_index (keyword_step p nm) xs (Suc i) ?m')" by simp
  from Cons.IH [OF init' step' this] show ?case .
qed

lemma keyword_entry_identity:
  "changeId (keyword_entry p nm i x None) = c_id (change x)"
  "vectorScore (keyword_entry p nm i x None) = None"
  "changeId (keyword_entry p nm i x (Some r)) = changeId r"
  "vectorScore (keyword_entry p nm i x (Some r)) = vectorScore r"
  "keywordScore (keyword_entry p nm i x ex) = Some \<bar>rank x\<bar>"
  by (simp_all add: keyword_entry_def Let_def split: option.split)

lemma boost_step_identity:
  "changeId (boost_step r) = changeId r" "vectorScore (boost_step r) = vectorScore r"
  "keywordScore (boost_step r) = keywordScore r"
  by (simp_all add: boost_step_def)

lemma fuse_legs_lexical_only:
  assumes "r \<in> set (fuse_legs [] ks p)"
  shows "vectorScore r = None \<and> keywordScore r \<noteq> None \<and>
         changeId r \<in> (\<lambda>k. c_id (change k)) ` set ks"
proof -
  let ?NV = "normalizeScores (vectorEntries []) MIN_VECTOR_SCORE"
  let ?NK = "normalizeScores (keywordEntries ks) MIN_KEYWORD_SCORE"
  let ?Q = "\<lambda>(c::string) (r::RankedResult). changeId r = c \<and> vectorScore r = None \<and>
              keywordScore r \<noteq> None \<and> c \<in> (\<lambda>k. c_id (change k)) ` set ks"
  from assms obtain c r0 where m: "(c, r0) \<in> set (fusion_scoreMap [] ks p ?NV ?NK)"
    and r: "r = boost_step r0"
    unfolding fuse_legs_def Let_def set_reciprocalRankFusion by auto
  from m have m': "(c, r0) \<in> set (forEach_index (keyword_step p (normalizedMap ?NK)) ks 0 [])"
    by (simp add: fusion_scoreMap_unfold)
  have "?Q c r0"
  proof (rule keyword_loop_invariant [where Q = ?Q, OF _ _ m'])
    fix c :: string and r :: RankedResult
    assume "(c, r) \<in> set []" then show "?Q c r" by simp
  next
    fix i :: nat and x :: KeywordResult and ex :: "RankedResult option"
    assume x: "x \<in> set ks"
      and e: "case ex of None \<Rightarrow> True | Some r \<Rightarrow> ?Q (c_id (change x)) r"
    show "?Q (c_id (change x)) (keyword_entry p (normalizedMap ?NK) i x ex)"
      using x e by (cases ex) (simp_all add: keyword_entry_identity)
  qed
  with r show ?thesis by (simp add: boost_step_identity)
qed

lemma map_of_fold_map_set_rev:
  "map_of (fold (\<lambda>(k, v) m. map_set k v m) ps m) c =
     (case map_of (rev ps) c of Some x \<Rightarrow> Some x | None \<Rightarrow> map_of m c)"
proof (induction ps arbitrary: m)
  case Nil
  show ?case by simp
next
  case (Cons p ps)
  obtain k v where p: "p = (k, v)" by (cases p)
  show ?case
    by (simp add: p Cons.IH map_of_map_set map_add_def split: option.split)
qed

lemma map_of_js_new_Map_rev: "map_of (js_new_Map ps) c = map_of (rev ps) c"
  by (simp add: js_new_Map_def map_of_fold_map_set_rev split: option.split)

lemma updatedResults_eq:
  "updatedResults reranked rs =
     map (\<lambda>r. r\<lparr>rerankerScore := map_of (map (\<lambda>x. (rr_id x, rr_score x)) (rev reranked)) (changeId r)\<rparr>) rs"
  by (simp add: updatedResults_def Let_def map_of_js_new_Map_rev rev_map)

lemma applyReranking_cases:
  "applyReranking e q rs = rs \<or>
   (\<exists>reranked. applyReranking e q rs =
      js_array_sort (array_sort e) rerank_compare (updatedResults reranked rs))"
  by (auto simp: applyReranking_def split: sum.splits)

lemma applyReranking_mset:
  assumes "sort_permutes (array_sort e)"
  shows "\<exists>f. mset (applyReranking e q rs) = mset (map (\<lambda>r. r\<lparr>rerankerScore := f r\<rparr>) rs)"
proof -
  from applyReranking_cases [of e q rs] show ?thesis
  proof
    assume "applyReranking e q rs = rs"
    then have "mset (applyReranking e q rs) = mset (map (\<lambda>r. r\<lparr>rerankerScore := rerankerScore r\<rparr>) rs)"
      by simp
    then show ?thesis by blast
  next
    assume "\<exists>reranked. applyReranking e q rs =
      js_array_sort (array_sort e) rerank_compare (updatedResults reranked rs)"
    then obtain reranked where a: "applyReranking e q rs =
      js_array_sort (array_sort e) rerank_compare (updatedResults reranked rs)" by blast
    have "mset (applyReranking e q rs) = mset (updatedResults reranked rs)"
      unfolding a using assms by (rule mset_js_array_sort)
    then show ?thesis
      unfolding updatedResults_eq
      by (intro exI [where x = "\<lambda>r. map_of (map (\<lambda>x. (rr_id x, rr_score x)) (rev reranked)) (changeId r)"])
  qed
qed

lemma applyReranking_changeIds:
  assumes "sort_permutes (array_sort e)"
  shows "mset (map changeId (applyReranking e q rs)) = mset (map changeId rs)"
proof -
  from applyReranking_mset [OF assms, of q rs] obtain f where
    f: "mset (applyReranking e q rs) = mset (map (\<lambda>r. r\<lparr>rerankerScore := f r\<rparr>) rs)" by blast
  have "mset (map changeId (applyReranking e q rs)) = image_mset changeId (mset (applyReranking e q rs))"
    by simp
  also have "\<dots> = image_mset changeId (mset (map (\<lambda>r. r\<lparr>rerankerScore := f r\<rparr>) rs))"
    by (simp only: f)
  also have "\<dots> = mset (map (\<lambda>r. changeId (r\<lparr>rerankerScore := f r\<rparr>)) rs)"
    by (simp add: comp_def multiset.map_comp)
  also have "\<dots> = mset (map changeId rs)" by simp
  finally show ?thesis .
qed

lemma applyReranking_length:
  assumes "sort_permutes (array_sort e)"
  shows "length (applyReranking e q rs) = length rs"
  using applyReranking_changeIds [OF assms, of q rs, THEN mset_eq_length] by simp

lemma applyReranking_elems:
  assumes "sort_permutes (array_sort e)" and "r' \<in> set (applyReranking e q rs)"
  shows "\<exists>r \<in> set rs. changeId r' = changeId r \<and> vectorScore r' = vectorScore r \<and>
                        keywordScore r' = keywordScore r"
proof -
  from applyReranking_mset [OF assms(1), of q rs] obtain f where
    f: "mset (applyReranking e q rs) = mset (map (\<lambda>r. r\<lparr>rerankerScore := f r\<rparr>) rs)" by blast
  from f have "set (applyReranking e q rs) = set (map (\<lambda>r. r\<lparr>rerankerScore := f r\<rparr>) rs)"
    by (rule mset_eq_setD)
  with assms(2) obtain r where "r \<in> set rs" "r' = r\<lparr>rerankerScore := f r\<rparr>" by auto
  then show ?thesis by auto
qed

lemma applyReranking_keeps:
  assumes "sort_permutes (array_sort e)" and "r \<in> set rs"
  shows "\<exists>r' \<in> set (applyReranking e q rs). changeId r' = changeId r \<and> vectorScore r' = vectorScore r \<and>
                        keywordScore r' = keywordScore r"
proof -
  from applyReranking_mset [OF assms(1), of q rs] obtain f where
    f: "mset (applyReranking e q rs) = mset (map (\<lambda>r. r\<lparr>rerankerScore := f r\<rparr>) rs)" by blast
  from f have "set (applyReranking e q rs) = set (map (\<lambda>r. r\<lparr>rerankerScore := f r\<rparr>) rs)"
    by (rule mset_eq_setD)
  with assms(2) have "r\<lparr>rerankerScore := f r\<rparr> \<in> set (applyReranking e q rs)" by auto
  then show ?thesis by (rule rev_bexI) simp
qed

lemma hydrate_loop_error:
  "hydrate_loop e ts rs = Inl err \<Longrightarrow> \<exists>r \<in> set rs. getChange e (changeId r) = Inl err"
  by (induction rs) (auto split: sum.splits)

lemma hydrate_loop_total:
  "(\<forall>r \<in> set rs. \<exists>c. getChange e (changeId r) = Inr c) \<Longrightarrow> \<exists>out. hydrate_loop e ts rs = Inr out"
proof (induction rs)
  case Nil
  then show ?case by simp
next
  case (Cons r rs)
  then obtain c out where "getChange e (changeId r) = Inr c" "hydrate_loop e ts rs = Inr out" by auto
  then show ?case by simp
qed

lemma hydrate_loop_results:
  "hydrate_loop e ts rs = Inr out \<Longrightarrow> res \<in> set out \<Longrightarrow>
     \<exists>r \<in> set rs. getChange e (changeId r) = Inr (Some (sr_change res)) \<and>
                   sr_vectorScore res = vectorScore r"
proof (induction rs arbitrary: out)
  case Nil
  then show ?case by simp
next
  case (Cons r rs)
  from Cons.prems(1) obtain c out' where c: "getChange e (changeId r) = Inr c"
    and o: "hydrate_loop e ts rs = Inr out'"
    and out: "out = (case c of None \<Rightarrow> [] | Some ch \<Rightarrow> [hydrate_one ts r ch]) @ out'"
    by (auto split: sum.splits)
  from Cons.prems(2) out consider (here) ch where "c = Some ch" "res = hydrate_one ts r ch"
    | (later) "res \<in> set out'" by (auto split: option.splits)
  then show ?case
  proof cases
    case here
    with c show ?thesis by (simp add: hydrate_one_def)
  next
    case later
    from Cons.IH [OF o later] show ?thesis by auto
  qed
qed


lemma hydrate_loop_Inr:
  "hydrate_loop e ts rs = Inr out \<Longrightarrow>
     out = concat (map (\<lambda>r. case getChange e (changeId r) of
                               Inr (Some c) \<Rightarrow> [hydrate_one ts r c] | _ \<Rightarrow> []) rs)"
proof (induction rs arbitrary: out)
  case Nil
  then show ?case by simp
next
  case (Cons r rs)
  from Cons.prems obtain c out' where c: "getChange e (changeId r) = Inr c"
    and o: "hydrate_loop e ts rs = Inr out'"
    and out: "out = (case c of None \<Rightarrow> [] | Some ch \<Rightarrow> [hydrate_one ts r ch]) @ out'"
    by (auto split: sum.splits)
  from Cons.IH [OF o] out c show ?case by (simp split: option.split)
qed

lemma hydrate_loop_records:
  assumes "hydrate_loop e ts rs = Inr out"
  shows "map sr_change out =
           concat (map (\<lambda>r. case getChange e (changeId r) of Inr (Some c) \<Rightarrow> [c] | _ \<Rightarrow> []) rs)"
proof -
  have "map sr_change (case x of Inr (Some c) \<Rightarrow> [hydrate_one ts r c] | _ \<Rightarrow> []) =
        (case x of Inr (Some c) \<Rightarrow> [c] | _ \<Rightarrow> [])" for x :: "error + ChangeRecord option" and r
    by (simp add: hydrate_one_def split: sum.split option.split)
  then show ?thesis
    unfolding hydrate_loop_Inr [OF assms] by (simp add: map_concat comp_def)
qed

lemma mset_concat_map_ids:
  assumes "mset (map f xs) = mset (map h ys)"
  shows "mset (concat (map (\<lambda>x. g (f x)) xs)) = mset (concat (map (\<lambda>y. g (h y)) ys))"
proof -
  have c: "mset (concat (map (\<lambda>x. g (k x)) zs)) = (\<Sum>c \<in># mset (map k zs). mset (g c))" for k zs
    by (induction zs) simp_all
  show ?thesis unfolding c [of f xs] c [of h ys] by (simp only: assms)
qed

lemma lexical_scoreMap_ids:
  assumes "(c, r) \<in> set (fusion_scoreMap [] ks p nv nk)"
  shows "changeId r = c"
proof -
  let ?Q = "\<lambda>(c::string) (r::RankedResult). changeId r = c"
  from assms have m: "(c, r) \<in> set (forEach_index (keyword_step p (normalizedMap nk)) ks 0 [])"
    by (simp add: fusion_scoreMap_unfold)
  show "?Q c r"
  proof (rule keyword_loop_invariant [where Q = ?Q, OF _ _ m])
    fix c :: string and r :: RankedResult
    assume "(c, r) \<in> set []" then show "?Q c r" by simp
  next
    fix i :: nat and x :: KeywordResult and ex :: "RankedResult option"
    assume "case ex of None \<Rightarrow> True | Some r \<Rightarrow> ?Q (c_id (change x)) r"
    then show "?Q (c_id (change x)) (keyword_entry p (normalizedMap nk) i x ex)"
      by (cases ex) (simp_all add: keyword_entry_identity)
  qed
qed

lemma fuse_legs_lexical_ids:
  "distinct (map changeId (fuse_legs [] ks p))"
  "set (map changeId (fuse_legs [] ks p)) = (\<lambda>k. c_id (change k)) ` set ks"
proof -
  let ?NV = "normalizeScores (vectorEntries []) MIN_VECTOR_SCORE"
  let ?NK = "normalizeScores (keywordEntries ks) MIN_KEYWORD_SCORE"
  let ?M = "fusion_scoreMap [] ks p ?NV ?NK"
  have ids: "map changeId (map (\<lambda>(k, r). boost_step r) ?M) = map fst ?M"
  proof -
    have "changeId (case x of (k, r) \<Rightarrow> boost_step r) = fst x" if "x \<in> set ?M" for x
    proof -
      obtain c r where x: "x = (c, r)" by (cases x)
      with that lexical_scoreMap_ids [of c r ks p ?NV ?NK] show ?thesis
        by (simp add: boost_step_identity)
    qed
    then show ?thesis by simp
  qed
  have "mset (map changeId (fuse_legs [] ks p)) =
        mset (map changeId (js_sort (\<lambda>a b. rrfScore b - rrfScore a) (map (\<lambda>(k, r). boost_step r) ?M)))"
    by (simp add: fuse_legs_def reciprocalRankFusion_def Let_def)
  also have "\<dots> = mset (map changeId (map (\<lambda>(k, r). boost_step r) ?M))"
    by (simp only: mset_map mset_js_sort)
  finally have m: "mset (map changeId (fuse_legs [] ks p)) = mset (map fst ?M)" by (simp only: ids)
  from mset_eq_imp_distinct_iff [OF m] fusion_distinct [of "[]" ks p ?NV ?NK]
  show "distinct (map changeId (fuse_legs [] ks p))" by blast
  from m have "set (map changeId (fuse_legs [] ks p)) = set (map fst ?M)" by (rule mset_eq_setD)
  with fusion_keys [of "[]" ks p ?NV ?NK]
  show "set (map changeId (fuse_legs [] ks p)) = (\<lambda>k. c_id (change k)) ` set ks" by simp
qed

lemma fuse_legs_lexical_length: "length (fuse_legs [] ks p) \<le> length ks"
proof -
  have "length (fuse_legs [] ks p) = length (map changeId (fuse_legs [] ks p))" by simp
  also have "\<dots> = card (set (map changeId (fuse_legs [] ks p)))"
    using fuse_legs_lexical_ids(1) [of ks p] by (simp only: distinct_card)
  also have "\<dots> = card ((\<lambda>k. c_id (change k)) ` set ks)" by (simp only: fuse_legs_lexical_ids(2))
  also have "\<dots> \<le> card (set ks)" by (rule card_image_le) simp
  also have "\<dots> \<le> length ks" by (rule card_length)
  finally show ?thesis .
qed

lemma fuse_legs_lexical_mset:
  assumes "distinct (map (\<lambda>k. c_id (change k)) ks)"
  shows "mset (map changeId (fuse_legs [] ks p)) = mset (map (\<lambda>k. c_id (change k)) ks)"
proof -
  have "set (map changeId (fuse_legs [] ks p)) = set (map (\<lambda>k. c_id (change k)) ks)"
    using fuse_legs_lexical_ids(2) [of ks p] by simp
  with set_eq_iff_mset_eq_distinct [OF fuse_legs_lexical_ids(1) [of ks p] assms] show ?thesis
    by blast
qed

lemma vector_leg_throws_empty: "vector_leg_throws e q k fs \<Longrightarrow> vectorSearch e q k fs = []"
  by (auto simp: vector_leg_throws_def vectorSearch_def split: sum.splits)

lemma final_ranked_lexical_only:
  assumes host: "sort_permutes (array_sort e)"
    and "r \<in> set (if useReranker e \<and> reranker_isEnabled e \<and> length (fuse_legs [] ks p) > 0
                      then applyReranking e q (fuse_legs [] ks p) else fuse_legs [] ks p)"
  shows "vectorScore r = None \<and> keywordScore r \<noteq> None \<and>
         changeId r \<in> (\<lambda>k. c_id (change k)) ` set ks"
proof -
  from assms(2) have "r \<in> set (fuse_legs [] ks p) \<or> r \<in> set (applyReranking e q (fuse_legs [] ks p))"
    by (auto split: if_splits)
  then obtain r0 where "r0 \<in> set (fuse_legs [] ks p)" "changeId r = changeId r0"
    "vectorScore r = vectorScore r0" "keywordScore r = keywordScore r0"
    using applyReranking_elems [OF host] by blast
  with fuse_legs_lexical_only [of r0 ks p] show ?thesis by simp
qed

lemma final_ranked_ids:
  assumes host: "sort_permutes (array_sort e)"
  shows "mset (map changeId (if useReranker e \<and> reranker_isEnabled e \<and> length rs > 0
                             then applyReranking e q rs else rs)) = mset (map changeId rs)"
  using applyReranking_changeIds [OF host, of q rs] by simp

lemma search_from_legs_hydrate:
  "search_from_legs e query vs ks =
     hydrate_loop e (extractQueryTerms (naturalLanguage query))
       (take MAX_RESULTS
          (if useReranker e \<and> reranker_isEnabled e \<and> length (fuse_legs vs ks (search_params query)) > 0
           then applyReranking e (naturalLanguage query) (fuse_legs vs ks (search_params query))
           else fuse_legs vs ks (search_params query)))"
  by (simp add: search_from_legs_def hydrateResults_def Let_def)

lemma search_from_legs_lexical_only:
  assumes host: "sort_permutes (array_sort e)"
  shows "(\<forall>err. search_from_legs e query [] ks = Inl err \<longrightarrow> (\<exists>cid. getChange e cid = Inl err)) \<and>
   ((\<forall>cid. \<exists>c. getChange e cid = Inr c) \<longrightarrow> (\<exists>rs. search_from_legs e query [] ks = Inr rs)) \<and>
   (\<forall>rs. search_from_legs e query [] ks = Inr rs \<longrightarrow>
      (\<forall>r \<in> set rs. sr_vectorScore r = None \<and>
         (\<exists>k \<in> set ks. getChange e (c_id (change k)) = Inr (Some (sr_change r)))))"
proof -
  let ?p = "search_params query"
  let ?F = "if useReranker e \<and> reranker_isEnabled e \<and> length (fuse_legs [] ks ?p) > 0
            then applyReranking e (naturalLanguage query) (fuse_legs [] ks ?p) else fuse_legs [] ks ?p"
  let ?ts = "extractQueryTerms (naturalLanguage query)"
  have s: "search_from_legs e query [] ks = hydrate_loop e ?ts (take MAX_RESULTS ?F)"
    by (rule search_from_legs_hydrate)
  have a: "\<forall>err. search_from_legs e query [] ks = Inl err \<longrightarrow> (\<exists>cid. getChange e cid = Inl err)"
    unfolding s using hydrate_loop_error by blast
  have b: "(\<forall>cid. \<exists>c. getChange e cid = Inr c) \<longrightarrow> (\<exists>rs. search_from_legs e query [] ks = Inr rs)"
    unfolding s using hydrate_loop_total [of "take MAX_RESULTS ?F" e ?ts] by blast
  have c: "\<forall>rs. search_from_legs e query [] ks = Inr rs \<longrightarrow>
      (\<forall>r \<in> set rs. sr_vectorScore r = None \<and>
         (\<exists>k \<in> set ks. getChange e (c_id (change k)) = Inr (Some (sr_change r))))"
  proof (intro allI impI ballI)
    fix rs r assume rs: "search_from_legs e query [] ks = Inr rs" and r: "r \<in> set rs"
    from rs have "hydrate_loop e ?ts (take MAX_RESULTS ?F) = Inr rs" by (simp only: s)
    from hydrate_loop_results [OF this r] obtain r0 where r0: "r0 \<in> set (take MAX_RESULTS ?F)"
      "getChange e (changeId r0) = Inr (Some (sr_change r))" "sr_vectorScore r = vectorScore r0"
      by blast
    from r0(1) have "r0 \<in> set ?F" by (rule in_set_takeD)
    from final_ranked_lexical_only [OF host this]
    have v: "vectorScore r0 = None" and k: "changeId r0 \<in> (\<lambda>k. c_id (change k)) ` set ks" by simp_all
    from k obtain k0 where "k0 \<in> set ks" "changeId r0 = c_id (change k0)" by auto
    with r0 v show "sr_vectorScore r = None \<and>
         (\<exists>k \<in> set ks. getChange e (c_id (change k)) = Inr (Some (sr_change r)))" by auto
  qed
  from a b c show ?thesis by (intro conjI)
qed

lemma search_from_legs_lexical_complete:
  assumes host: "sort_permutes (array_sort e)"
    and rs: "search_from_legs e query [] ks = Inr rs"
    and len: "length ks \<le> MAX_RESULTS"
  shows "\<forall>k \<in> set ks. \<forall>c. getChange e (c_id (change k)) = Inr (Some c) \<longrightarrow>
           (\<exists>r \<in> set rs. sr_change r = c \<and> sr_vectorScore r = None \<and> sr_keywordScore r \<noteq> None)"
    and "distinct (map (\<lambda>k. c_id (change k)) ks) \<longrightarrow>
           mset (map sr_change rs) =
             mset (concat (map (\<lambda>k. case getChange e (c_id (change k)) of
                                       Inr (Some c) \<Rightarrow> [c] | _ \<Rightarrow> []) ks))"
proof -
  let ?p = "search_params query"
  let ?fused = "fuse_legs [] ks ?p"
  let ?F = "if useReranker e \<and> reranker_isEnabled e \<and> length ?fused > 0
            then applyReranking e (naturalLanguage query) ?fused else ?fused"
  let ?ts = "extractQueryTerms (naturalLanguage query)"
  have ids: "mset (map changeId ?F) = mset (map changeId ?fused)"
    by (rule final_ranked_ids [OF host])
  from ids have "length (map changeId ?F) = length (map changeId ?fused)" by (rule mset_eq_length)
  then have "length ?F = length ?fused" by (simp only: length_map)
  with fuse_legs_lexical_length [of ks ?p] len have "length ?F \<le> MAX_RESULTS" by simp
  then have tk: "take MAX_RESULTS ?F = ?F" by (rule take_all)
  have h: "hydrate_loop e ?ts ?F = Inr rs"
    using rs unfolding search_from_legs_hydrate tk .
  show "\<forall>k \<in> set ks. \<forall>c. getChange e (c_id (change k)) = Inr (Some c) \<longrightarrow>
           (\<exists>r \<in> set rs. sr_change r = c \<and> sr_vectorScore r = None \<and> sr_keywordScore r \<noteq> None)"
  proof (intro ballI allI impI)
    fix k c assume k: "k \<in> set ks" and c: "getChange e (c_id (change k)) = Inr (Some c)"
    from k have "c_id (change k) \<in> set (map changeId ?fused)"
      by (simp only: fuse_legs_lexical_ids(2)) simp
    also have "set (map changeId ?fused) = set (map changeId ?F)"
      using ids [THEN mset_eq_setD] by simp
    finally obtain r where r: "r \<in> set ?F" "changeId r = c_id (change k)" by auto
    from final_ranked_lexical_only [OF host r(1)]
    have v: "vectorScore r = None" and kw: "keywordScore r \<noteq> None" by simp_all
    have "hydrate_one ?ts r c \<in> set rs"
      unfolding hydrate_loop_Inr [OF h] using r c by (auto intro!: bexI [of _ r])
    moreover have "sr_change (hydrate_one ?ts r c) = c" "sr_vectorScore (hydrate_one ?ts r c) = None"
      "sr_keywordScore (hydrate_one ?ts r c) \<noteq> None"
      using v kw by (simp_all add: hydrate_one_def)
    ultimately show "\<exists>r \<in> set rs. sr_change r = c \<and> sr_vectorScore r = None \<and> sr_keywordScore r \<noteq> None"
      by blast
  qed
  show "distinct (map (\<lambda>k. c_id (change k)) ks) \<longrightarrow>
           mset (map sr_change rs) =
             mset (concat (map (\<lambda>k. case getChange e (c_id (change k)) of
                                       Inr (Some c) \<Rightarrow> [c] | _ \<Rightarrow> []) ks))"
  proof
    assume d: "distinct (map (\<lambda>k. c_id (change k)) ks)"
    from ids fuse_legs_lexical_mset [OF d, of ?p]
    have m: "mset (map changeId ?F) = mset (map (\<lambda>k. c_id (change k)) ks)" by simp
    have "mset (map sr_change rs) =
          mset (concat (map (\<lambda>r. (\<lambda>cid. case getChange e cid of Inr (Some c) \<Rightarrow> [c] | _ \<Rightarrow> []) (changeId r)) ?F))"
      by (simp only: hydrate_loop_records [OF h])
    also have "\<dots> = mset (concat (map (\<lambda>k. (\<lambda>cid. case getChange e cid of Inr (Some c) \<Rightarrow> [c] | _ \<Rightarrow> [])
                                           (c_id (change k))) ks))"
      using m by (rule mset_concat_map_ids)
    finally show "mset (map sr_change rs) =
             mset (concat (map (\<lambda>k. case getChange e (c_id (change k)) of
                                       Inr (Some c) \<Rightarrow> [c] | _ \<Rightarrow> []) ks))" by simp
  qed
qed


subsection \<open>The order of the reranking stage\<close>

lemma rerank_compare_total: "rerank_compare a b \<le> 0 \<or> rerank_compare b a \<le> 0"
  by (cases "rerankerScore a"; cases "rerankerScore b") (auto simp: rerank_compare_def)

lemma rerank_compare_antisym: "rerank_compare b a = - rerank_compare a b"
  by (cases "rerankerScore a"; cases "rerankerScore b") (auto simp: rerank_compare_def)

lemma rerank_compare_mixed:
  "rerankerScore a = None \<or> rerankerScore b = None \<Longrightarrow> rerank_compare a b = rrfScore b - rrfScore a"
  by (cases "rerankerScore a"; cases "rerankerScore b") (auto simp: rerank_compare_def)

lemma rerank_compare_both:
  "rerankerScore a = Some x \<Longrightarrow> rerankerScore b = Some y \<Longrightarrow> rerank_compare a b = y - x"
  by (simp add: rerank_compare_def)

lemma rerank_compare_before: "rerank_compare a b \<le> 0 \<longleftrightarrow> ranks_before a b"
  by (cases "rerankerScore a"; cases "rerankerScore b") (auto simp: rerank_compare_def ranks_before_def)

lemma rerank_consistent:
  assumes "\<forall>a \<in> set xs. \<forall>b \<in> set xs. \<forall>c \<in> set xs.
             ranks_before a b \<longrightarrow> ranks_before b c \<longrightarrow> ranks_before a c"
  shows "consistent_on rerank_compare xs"
proof (rule consistent_on_antisym)
  fix a b :: RankedResult
  show "rerank_compare b a = - rerank_compare a b" by (rule rerank_compare_antisym)
next
  fix a b c assume "a \<in> set xs" "b \<in> set xs" "c \<in> set xs"
    "rerank_compare a b \<le> 0" "rerank_compare b c \<le> 0"
  with assms show "rerank_compare a c \<le> 0" unfolding rerank_compare_before by blast
qed

lemma ranks_before_all_scored:
  assumes "\<forall>r \<in> set xs. rerankerScore r \<noteq> None" and "a \<in> set xs" and "b \<in> set xs"
  shows "ranks_before a b \<longleftrightarrow> the (rerankerScore b) \<le> the (rerankerScore a)"
proof -
  from assms obtain x y where "rerankerScore a = Some x" "rerankerScore b = Some y" by fastforce
  then show ?thesis by (simp add: ranks_before_def)
qed

lemma ranks_before_none_scored:
  assumes "\<forall>r \<in> set xs. rerankerScore r = None" and "a \<in> set xs"
  shows "ranks_before a b \<longleftrightarrow> rrfScore b \<le> rrfScore a"
  using assms by (simp add: ranks_before_def)

lemma applyReranking_success:
  assumes "rerank_documents e (take TOP_K rs) = Inr documents" and "documents \<noteq> []"
    and "reranker_rerank e q documents MAX_RESULTS = Inr reranked"
  shows "applyReranking e q rs =
           js_array_sort (array_sort e) rerank_compare (updatedResults reranked rs)"
  using assms by (simp add: applyReranking_def)

lemma sorted_ranks_before:
  assumes "\<forall>a \<in> set xs. \<forall>b \<in> set xs. \<forall>c \<in> set xs.
             ranks_before a b \<longrightarrow> ranks_before b c \<longrightarrow> ranks_before a c"
  shows "js_array_sort host rerank_compare xs = js_sort rerank_compare xs"
    and "sorted_wrt ranks_before (js_array_sort host rerank_compare xs)"
proof -
  note c = rerank_consistent [OF assms]
  show "js_array_sort host rerank_compare xs = js_sort rerank_compare xs"
    using c by (rule sorted_js_array_sort(1))
  have "sorted_wrt (\<lambda>a b. rerank_compare a b \<le> 0) (js_array_sort host rerank_compare xs)"
    using c by (rule sorted_js_array_sort(2))
  then show "sorted_wrt ranks_before (js_array_sort host rerank_compare xs)"
    by (simp only: rerank_compare_before)
qed

lemma sorted_rerank_all_scored:
  assumes "\<forall>r \<in> set xs. rerankerScore r \<noteq> None"
  shows "sorted_wrt (\<lambda>a b. the (rerankerScore b) \<le> the (rerankerScore a))
           (js_array_sort host rerank_compare xs)"
proof -
  have tr: "\<forall>a \<in> set xs. \<forall>b \<in> set xs. \<forall>c \<in> set xs.
             ranks_before a b \<longrightarrow> ranks_before b c \<longrightarrow> ranks_before a c"
  proof (intro ballI impI)
    fix a b c assume m: "a \<in> set xs" "b \<in> set xs" "c \<in> set xs"
      and ab: "ranks_before a b" and bc: "ranks_before b c"
    from ab ranks_before_all_scored [OF assms m(1,2)]
    have "the (rerankerScore b) \<le> the (rerankerScore a)" by simp
    moreover from bc ranks_before_all_scored [OF assms m(2,3)]
    have "the (rerankerScore c) \<le> the (rerankerScore b)" by simp
    ultimately show "ranks_before a c" using ranks_before_all_scored [OF assms m(1,3)] by simp
  qed
  have s: "set (js_array_sort host rerank_compare xs) = set xs"
    unfolding sorted_ranks_before(1) [OF tr] by (rule set_js_sort)
  from sorted_ranks_before(2) [OF tr, of host] show ?thesis
  proof (rule sorted_wrt_mono_rel [rotated])
    fix a b assume "a \<in> set (js_array_sort host rerank_compare xs)"
      "b \<in> set (js_array_sort host rerank_compare xs)" and le: "ranks_before a b"
    then have "a \<in> set xs" "b \<in> set xs" by (simp_all only: s)
    from ranks_before_all_scored [OF assms this] le
    show "the (rerankerScore b) \<le> the (rerankerScore a)" by simp
  qed
qed

lemma sorted_rerank_none_scored:
  assumes "\<forall>r \<in> set xs. rerankerScore r = None"
  shows "sorted_wrt (\<lambda>a b. rrfScore b \<le> rrfScore a) (js_array_sort host rerank_compare xs)"
proof -
  have tr: "\<forall>a \<in> set xs. \<forall>b \<in> set xs. \<forall>c \<in> set xs.
             ranks_before a b \<longrightarrow> ranks_before b c \<longrightarrow> ranks_before a c"
  proof (intro ballI impI)
    fix a b c assume m: "a \<in> set xs" "b \<in> set xs" "c \<in> set xs"
      and ab: "ranks_before a b" and bc: "ranks_before b c"
    from ab ranks_before_none_scored [OF assms m(1), of b] have "rrfScore b \<le> rrfScore a" by simp
    moreover from bc ranks_before_none_scored [OF assms m(2), of c] have "rrfScore c \<le> rrfScore b" by simp
    ultimately show "ranks_before a c" using ranks_before_none_scored [OF assms m(1), of c] by simp
  qed
  have s: "set (js_array_sort host rerank_compare xs) = set xs"
    unfolding sorted_ranks_before(1) [OF tr] by (rule set_js_sort)
  from sorted_ranks_before(2) [OF tr, of host] show ?thesis
  proof (rule sorted_wrt_mono_rel [rotated])
    fix a b assume "a \<in> set (js_array_sort host rerank_compare xs)" and le: "ranks_before a b"
    then have "a \<in> set xs" by (simp only: s)
    from ranks_before_none_scored [OF assms this, of b] le
    show "rrfScore b \<le> rrfScore a" by simp
  qed
qed


lemma ex_rr_fields:
  "getChange ex_env_rr c = (if c = ''a'' then Inr None else Inr (Some (ex_change c)))"
  "reranker_rerank ex_env_rr q ds k =
     Inr (map (\<lambda>d. \<lparr>rr_id = d_id d, rr_score = 9 / 10, rr_originalScore = originalScore d\<rparr>) ds)"
  "array_sort ex_env_rr = short_array_sort"
  by (simp_all add: ex_env_rr_def)

lemma ex_rr_documents: "rerank_documents ex_env_rr (take TOP_K [ex_ra, ex_rb]) = Inr [ex_doc_b]"
  by (simp add: TOP_K_def ex_rr_fields ex_ra_def ex_rb_def ex_doc_b_def)

lemma ex_rr_reranked:
  "reranker_rerank ex_env_rr q [ex_doc_b] MAX_RESULTS =
     Inr [\<lparr>rr_id = ''b'', rr_score = 9 / 10, rr_originalScore = Some (1 / 100)\<rparr>]"
  by (simp add: ex_rr_fields ex_doc_b_def)

lemma ex_rr_updated:
  "updatedResults [\<lparr>rr_id = ''b'', rr_score = 9 / 10, rr_originalScore = Some (1 / 100)\<rparr>] [ex_ra, ex_rb] =
     [ex_ra, ex_rb\<lparr>rerankerScore := Some (9 / 10)\<rparr>]"
  by (simp add: updatedResults_def js_new_Map_def ex_ra_def ex_rb_def)

lemma ex_rr_transitive:
  "\<forall>a \<in> set [ex_ra, ex_rb\<lparr>rerankerScore := Some (9 / 10)\<rparr>].
   \<forall>b \<in> set [ex_ra, ex_rb\<lparr>rerankerScore := Some (9 / 10)\<rparr>].
   \<forall>c \<in> set [ex_ra, ex_rb\<lparr>rerankerScore := Some (9 / 10)\<rparr>].
     ranks_before a b \<longrightarrow> ranks_before b c \<longrightarrow> ranks_before a c"
  by (simp add: ranks_before_def ex_ra_def ex_rb_def)

lemma ex_rr_sorted:
  "js_array_sort host rerank_compare [ex_ra, ex_rb\<lparr>rerankerScore := Some (9 / 10)\<rparr>] =
     [ex_ra, ex_rb\<lparr>rerankerScore := Some (9 / 10)\<rparr>]"
  unfolding sorted_ranks_before(1) [OF ex_rr_transitive]
  by (simp add: js_sort_def rerank_compare_def ex_ra_def ex_rb_def)

lemma ex_rr_result:
  "applyReranking ex_env_rr q [ex_ra, ex_rb] = [ex_ra, ex_rb\<lparr>rerankerScore := Some (9 / 10)\<rparr>]"
  using applyReranking_success [OF ex_rr_documents _ ex_rr_reranked, of q]
  by (simp add: ex_rr_updated ex_rr_sorted)

lemma ex_cycle:
  "ranks_before ex_rd ex_ra" "ranks_before ex_ra (ex_rb\<lparr>rerankerScore := Some (9 / 10)\<rparr>)"
  "\<not> ranks_before ex_rd (ex_rb\<lparr>rerankerScore := Some (9 / 10)\<rparr>)"
  "\<not> consistent_on rerank_compare [ex_rd, ex_ra, ex_rb\<lparr>rerankerScore := Some (9 / 10)\<rparr>]"
proof -
  show 1: "ranks_before ex_rd ex_ra" by (simp add: ranks_before_def ex_rd_def ex_ra_def)
  show 2: "ranks_before ex_ra (ex_rb\<lparr>rerankerScore := Some (9 / 10)\<rparr>)"
    by (simp add: ranks_before_def ex_ra_def ex_rb_def)
  show 3: "\<not> ranks_before ex_rd (ex_rb\<lparr>rerankerScore := Some (9 / 10)\<rparr>)"
    by (simp add: ranks_before_def ex_rd_def ex_rb_def)
  show "\<not> consistent_on rerank_compare [ex_rd, ex_ra, ex_rb\<lparr>rerankerScore := Some (9 / 10)\<rparr>]"
  proof
    assume c: "consistent_on rerank_compare [ex_rd, ex_ra, ex_rb\<lparr>rerankerScore := Some (9 / 10)\<rparr>]"
    have "rerank_compare ex_rd (ex_rb\<lparr>rerankerScore := Some (9 / 10)\<rparr>) \<le> 0"
      by (rule consistent_on_trans [OF c, of ex_rd ex_ra]) (simp_all add: rerank_compare_before 1 2)
    with 3 show False by (simp add: rerank_compare_before)
  qed
qed


subsection \<open>A mixed list\<close>

lemma ex_mixed_fields: "array_sort ex_env_mixed = short_array_sort"
  by (simp add: ex_env_mixed_def ex_env_rr_def)

lemma ex_mixed_documents: "rerank_documents ex_env_mixed (take TOP_K ex_mixed) = Inr ex_mixed_docs"
  by code_simp

lemma ex_mixed_reranked: "reranker_rerank ex_env_mixed q ex_mixed_docs MAX_RESULTS = Inr ex_mixed_scores"
  by (simp add: ex_env_mixed_def ex_mixed_docs_def ex_mixed_scores_def)

lemma ex_mixed_result: "applyReranking ex_env_mixed ''q'' ex_mixed = ex_mixed_out"
  by code_simp

lemma ex_mixed_inconsistent:
  "\<not> consistent_on rerank_compare (updatedResults ex_mixed_scores ex_mixed)"
  by code_simp

lemma ex_mixed_unsorted: "\<not> sorted_wrt ranks_before ex_mixed_out"
  by (simp add: ex_mixed_out_def ranks_before_def ex_cand_def)


subsection \<open>The example search\<close>

lemma ex_keywordSearch: "keywordSearch ex_env q n = ex_ks"
  by (simp add: keywordSearch_def ex_env_fields)

lemma ex_search_legs:
  "search ex_env ex_query = search_from_legs ex_env ex_query [] ex_ks"
  by (simp add: search_def Let_def vectorSearch_def ex_env_fields ex_keywordSearch)

lemma ex_search_result:
  "search ex_env ex_query =
     Inr [\<lparr>sr_change = ex_change ''b'', sr_score = 4 / 10 * (1 / 61), sr_vectorScore = None,
           sr_keywordScore = Some 1,
           highlights = Some [\<lparr>h_field = ''filePath'', snippet = ''src/parser.ts'',
                                matchedTerms = [''parser'']\<rparr>]\<rparr>,
          \<lparr>sr_change = ex_change ''c'', sr_score = 4 / 10 * (1 / 62), sr_vectorScore = None,
           sr_keywordScore = Some 2,
           highlights = Some [\<lparr>h_field = ''filePath'', snippet = ''src/parser.ts'',
                                matchedTerms = [''parser'']\<rparr>]\<rparr>]"
  by code_simp
section \<open>Properties of the reranker service\<close>

lemma hf_doc_score_body:
  "hf_doc_score b idx doc =
     (case hf_body b idx of None \<Rightarrow> fallback_score doc | Some body \<Rightarrow> parse_score doc body)"
  by (simp add: hf_doc_score_def hf_body_def split: http_response.splits)

lemma parse_score_extracted:
  "parse_score doc body = (case extracted body of None \<Rightarrow> fallback_score doc | Some v \<Rightarrow> v)"
  by (simp add: extracted_def parse_score_def split: option.splits sum.splits)

lemma enumerate_member: "(j, d) \<in> set (enumerate 0 xs) \<Longrightarrow> j < length xs \<and> d = xs ! j"
  by (auto simp: in_set_enumerate_eq)

lemma insert_by_map:
  assumes "\<And>a b. cmp' (f a) (f b) = cmp a b"
  shows "insert_by cmp' (f x) (map f ys) = map f (insert_by cmp x ys)"
  by (induction ys) (simp_all add: assms)

lemma js_sort_map:
  assumes "\<And>a b. cmp' (f a) (f b) = cmp a b"
  shows "js_sort cmp' (map f xs) = map f (js_sort cmp xs)"
proof (induction xs)
  case Nil
  show ?case by (simp add: js_sort_def)
next
  case (Cons x xs)
  have "js_sort cmp' (map f (x # xs)) = insert_by cmp' (f x) (js_sort cmp' (map f xs))"
    by (simp add: js_sort_def)
  also have "\<dots> = insert_by cmp' (f x) (map f (js_sort cmp xs))" by (simp only: Cons.IH)
  also have "\<dots> = map f (insert_by cmp x (js_sort cmp xs))" using assms by (rule insert_by_map)
  also have "\<dots> = map f (js_sort cmp (x # xs))" by (simp add: js_sort_def)
  finally show ?case .
qed

lemma score_compare_antisym: "score_compare b a = - score_compare a b"
proof -
  have flip: "sort_answer (js_minus x y) = - sort_answer (js_minus y x)" for x y
    by (cases x; cases y) simp_all
  show ?thesis unfolding score_compare_def by (rule flip)
qed

lemma score_compare_numbers: "score_compare (json_scored a) (json_scored b) = rr_score b - rr_score a"
  by (simp add: score_compare_def json_scored_def)

lemma numbers_consistent: "consistent_on score_compare (map json_scored xs)"
proof (rule consistent_on_antisym)
  fix a b :: "json RerankedResult"
  show "score_compare b a = - score_compare a b" by (rule score_compare_antisym)
next
  fix a b c
  assume "a \<in> set (map json_scored xs)" "b \<in> set (map json_scored xs)" "c \<in> set (map json_scored xs)"
  then obtain a' b' c' where "a = json_scored a'" "b = json_scored b'" "c = json_scored c'" by auto
  moreover assume "score_compare a b \<le> 0" "score_compare b c \<le> 0"
  ultimately show "score_compare a c \<le> 0" by (simp add: score_compare_numbers)
qed

lemma sort_numbers:
  "js_array_sort host score_compare (map json_scored xs) =
     map json_scored (js_sort (\<lambda>a b. rr_score b - rr_score a) xs)"
proof -
  have "js_array_sort host score_compare (map json_scored xs) = js_sort score_compare (map json_scored xs)"
    using numbers_consistent by (rule sorted_js_array_sort(1))
  also have "\<dots> = map json_scored (js_sort (\<lambda>a b. rr_score b - rr_score a) xs)"
    by (rule js_sort_map) (rule score_compare_numbers)
  finally show ?thesis .
qed

lemma fallback_when_nothing_extracted:
  assumes key: "js_truthy_string (apiKey cfg)"
    and i: "i < length documents"
    and bi: "hf_body b i = Some body"
    and un: "extracted body = None"
    and good: "\<forall>j < length documents. j \<noteq> i \<longrightarrow>
                 (\<exists>bj. hf_body b j = Some bj \<and> extracted bj = Some (JNum (s j)))"
  shows "rerankWithHuggingFace host cfg b query documents topK =
           map json_scored (take topK
             (js_sort (\<lambda>a b. rr_score b - rr_score a)
               (map (\<lambda>(j, d). \<lparr>rr_id = d_id d,
                                rr_score = (if j = i then nullish_or (originalScore d) 0 else s j),
                                rr_originalScore = originalScore d\<rparr>) (enumerate 0 documents))))"
proof -
  let ?f = "\<lambda>(j::nat, d). if j = i then nullish_or (originalScore d) 0 else s j"
  let ?E = "enumerate 0 documents"
  let ?mk = "\<lambda>(j, d). \<lparr>rr_id = d_id d,
                                rr_score = (if j = i then nullish_or (originalScore d) 0 else s j),
                                rr_originalScore = originalScore d\<rparr>"
  have sc: "hf_doc_score b j d = JNum (?f (j, d))" if "(j, d) \<in> set ?E" for j d
  proof (cases "j = i")
    case True
    then show ?thesis
      by (simp add: hf_doc_score_body bi parse_score_extracted un fallback_score_def)
  next
    case False
    from enumerate_member [OF that] have "j < length documents" by simp
    with good False obtain bj where "hf_body b j = Some bj" "extracted bj = Some (JNum (s j))" by blast
    then show ?thesis using False by (simp add: hf_doc_score_body parse_score_extracted)
  qed
  have scores: "hf_scores b documents = map (\<lambda>p. JNum (?f p)) ?E"
    unfolding hf_scores_def by (rule map_cong [OF refl]) (auto simp: sc)
  have nth: "(if j < length (map (\<lambda>p. JNum (?f p)) ?E) \<and> map (\<lambda>p. JNum (?f p)) ?E ! j \<noteq> JNull
              then map (\<lambda>p. JNum (?f p)) ?E ! j else JNum 0) = JNum (?f (j, d))"
    if "(j, d) \<in> set ?E" for j d
  proof -
    from enumerate_member [OF that] have j: "j < length documents" and d: "d = documents ! j" by simp_all
    then show ?thesis by (simp add: nth_enumerate_eq)
  qed
  have ro: "reranked_of documents (hf_scores b documents) = map json_scored (map ?mk ?E)"
    unfolding reranked_of_def scores map_map
  proof (rule map_cong [OF refl])
    fix p assume p: "p \<in> set ?E"
    obtain j d where jd: "p = (j, d)" by (cases p)
    from nth [of j d] p jd
    show "(case p of (idx, doc) \<Rightarrow> \<lparr>rr_id = d_id doc,
             rr_score = (if idx < length (map (\<lambda>p. JNum (?f p)) ?E) \<and> map (\<lambda>p. JNum (?f p)) ?E ! idx \<noteq> JNull
                         then map (\<lambda>p. JNum (?f p)) ?E ! idx else JNum 0),
             rr_originalScore = originalScore doc\<rparr>) = (json_scored \<circ> ?mk) p"
      by (simp add: json_scored_def)
  qed
  have nothrow: "\<not> (\<exists>r \<in> set (map json_scored (map ?mk ?E)). throws_ToPrimitive (rr_score r))"
    by (auto simp: json_scored_def)
  show ?thesis
    using key nothrow by (simp only: rerankWithHuggingFace_def Let_def ro sort_numbers take_map if_False simp_thms)
qed

lemma extracted_not_null: "extracted body = Some v \<Longrightarrow> v \<noteq> JNull"
  by (auto simp: extracted_def split: option.splits sum.splits if_splits)

lemma unchecked_score_returned:
  assumes key: "js_truthy_string (apiKey cfg)"
    and i: "i < length documents"
    and bi: "hf_body b i = Some body"
    and ex: "extracted body = Some v"
    and host: "sort_permutes host"
    and len: "length documents \<le> topK"
    and nothrow: "\<not> (2 \<le> length documents \<and>
                     (\<exists>r \<in> set (reranked_of documents (hf_scores b documents)).
                        throws_ToPrimitive (rr_score r)))"
  shows "\<lparr>rr_id = d_id (documents ! i), rr_score = v,
          rr_originalScore = originalScore (documents ! i)\<rparr>
           \<in> set (rerankWithHuggingFace host cfg b query documents topK)"
proof -
  let ?R = "reranked_of documents (hf_scores b documents)"
  have l: "length ?R = length documents" by (simp add: reranked_of_def)
  have sc: "hf_scores b documents ! i = v"
    using i by (simp add: hf_scores_def nth_enumerate_eq hf_doc_score_body bi parse_score_extracted ex)
  have li: "i < length (hf_scores b documents)" using i by (simp add: hf_scores_def)
  have "?R ! i = \<lparr>rr_id = d_id (documents ! i), rr_score = v,
                   rr_originalScore = originalScore (documents ! i)\<rparr>"
    using i li extracted_not_null [OF ex] by (simp add: reranked_of_def nth_enumerate_eq sc)
  with i l have mem: "\<lparr>rr_id = d_id (documents ! i), rr_score = v,
                   rr_originalScore = originalScore (documents ! i)\<rparr> \<in> set ?R"
    by (metis nth_mem)
  have m: "mset (js_array_sort host score_compare ?R) = mset ?R"
    using host by (rule mset_js_array_sort)
  then have "length (js_array_sort host score_compare ?R) = length ?R" by (rule mset_eq_length)
  with l len have tk: "take topK (js_array_sort host score_compare ?R) = js_array_sort host score_compare ?R"
    by simp
  have "rerankWithHuggingFace host cfg b query documents topK =
          take topK (js_array_sort host score_compare ?R)"
    using key nothrow unfolding l [symmetric]
    by (simp only: rerankWithHuggingFace_def Let_def simp_thms if_False)
  then have "set (rerankWithHuggingFace host cfg b query documents topK) = set ?R"
    using m [THEN mset_eq_setD] by (simp only: tk)
  with mem show ?thesis by simp
qed

lemma ex_backend_body:
  "hf_body ex_backend 0 = Some (Some ex_labels)"
  "hf_body ex_backend (Suc 0) = Some (Some (JStr ''loading''))"
  "hf_body ex_backend_high 0 = Some (Some ex_labels)"
  "hf_body ex_backend_high (Suc 0) = Some (Some (JObj [(''score'', JStr ''high'')]))"
  by (simp_all add: hf_body_def ex_backend_def ex_backend_high_def)

lemma ex_extracted:
  "extracted (Some ex_labels) = Some (JNum (7 / 10))"
  "extracted (Some (JStr ''loading'')) = None"
  "extracted (Some (JObj [(''score'', JStr ''high'')])) = Some (JStr ''high'')"
  by (simp_all add: extracted_def extractScoreFromResult_def ex_labels_def)

lemma ex_loading_result:
  "rerankWithHuggingFace host ex_cfg ex_backend ''q'' ex_docs 20 =
     [\<lparr>rr_id = ''x'', rr_score = JNum (7 / 10), rr_originalScore = Some (2 / 100)\<rparr>,
      \<lparr>rr_id = ''y'', rr_score = JNum (1 / 100), rr_originalScore = Some (1 / 100)\<rparr>]"
proof -
  have key: "js_truthy_string (apiKey ex_cfg)" by (simp add: js_truthy_string_def ex_cfg_def)
  have i: "Suc 0 < length ex_docs" by (simp add: ex_docs_def)
  have good: "\<forall>j < length ex_docs. j \<noteq> Suc 0 \<longrightarrow>
                 (\<exists>bj. hf_body ex_backend j = Some bj \<and> extracted bj = Some (JNum ((\<lambda>j. 7 / 10) j)))"
  proof (intro allI impI)
    fix j assume "j < length ex_docs" "j \<noteq> Suc 0"
    then have "j = 0" by (simp add: ex_docs_def)
    then show "\<exists>bj. hf_body ex_backend j = Some bj \<and> extracted bj = Some (JNum ((\<lambda>j. 7 / 10) j))"
      using ex_backend_body(1) ex_extracted(1) by simp
  qed
  show ?thesis
    unfolding fallback_when_nothing_extracted [OF key i ex_backend_body(2) ex_extracted(2) good]
    by (simp add: ex_docs_def enumerate_simps js_sort_def nullish_or_def json_scored_def)
qed

lemma ex_high_scores:
  "hf_scores ex_backend_high ex_docs = [JNum (7 / 10), JStr ''high'']"
  by (simp add: hf_scores_def ex_docs_def enumerate_simps hf_doc_score_body ex_backend_body
        parse_score_extracted ex_extracted)

lemma ex_high_reranked:
  "reranked_of ex_docs [JNum (7 / 10), JStr ''high''] =
     [\<lparr>rr_id = ''x'', rr_score = JNum (7 / 10), rr_originalScore = Some (2 / 100)\<rparr>,
      \<lparr>rr_id = ''y'', rr_score = JStr ''high'', rr_originalScore = Some (1 / 100)\<rparr>]"
  by (simp add: reranked_of_def ex_docs_def enumerate_simps)

lemma ex_high_number: "StringToNumber ''high'' = NaN"
  by code_simp

lemma ex_high_consistent:
  "consistent_on score_compare
     [\<lparr>rr_id = ''x'', rr_score = JNum (7 / 10), rr_originalScore = Some (2 / 100)\<rparr>,
      \<lparr>rr_id = ''y'', rr_score = JStr ''high'', rr_originalScore = Some (1 / 100)\<rparr>]"
  by (simp add: consistent_on_def score_compare_def ex_high_number)

lemma ex_high_sorted:
  "js_array_sort host score_compare
     [\<lparr>rr_id = ''x'', rr_score = JNum (7 / 10), rr_originalScore = Some (2 / 100)\<rparr>,
      \<lparr>rr_id = ''y'', rr_score = JStr ''high'', rr_originalScore = Some (1 / 100)\<rparr>] =
     [\<lparr>rr_id = ''x'', rr_score = JNum (7 / 10), rr_originalScore = Some (2 / 100)\<rparr>,
      \<lparr>rr_id = ''y'', rr_score = JStr ''high'', rr_originalScore = Some (1 / 100)\<rparr>]"
  unfolding sorted_js_array_sort(1) [OF ex_high_consistent]
  by (simp add: js_sort_def score_compare_def ex_high_number)


section \<open>The claims\<close>

text \<open>
  Claim C1, as amended.  With candidate ids distinct within each leg: an entry of a leg whose
  min-max normalized score is below the leg's threshold is dropped from the leg's normalized
  result list only.  The fusion still iterates over the leg's raw results, so the candidate is
  in the fused ranking with its rank in that leg recorded and the leg's contribution
  \<open>weight * (1 / (60 + rank))\<close> in its fusion score; its normalized score for that leg is
  taken as \<open>0\<close>, so that the overlap boost leaves its score unchanged.
\<close>

theorem threshold_gate:
  assumes dv: "distinct (map v_changeId vs)"
    and dk: "distinct (map (\<lambda>r. c_id (change r)) ks)"
  shows
   "(\<forall>i < length vs.
       (if Max (set (map v_score vs)) - Min (set (map v_score vs)) > 0
        then (v_score (vs ! i) - Min (set (map v_score vs))) /
             (Max (set (map v_score vs)) - Min (set (map v_score vs)))
        else 1) < MIN_VECTOR_SCORE \<longrightarrow>
       v_changeId (vs ! i) \<notin> n_id ` set (results (normalizeScores (vectorEntries vs) MIN_VECTOR_SCORE)) \<and>
       (\<exists>r. map_of (fusion_scoreMap vs ks params
                      (normalizeScores (vectorEntries vs) MIN_VECTOR_SCORE)
                      (normalizeScores (keywordEntries ks) MIN_KEYWORD_SCORE)) (v_changeId (vs ! i)) = Some r \<and>
            vectorRank r = Some (i + 1) \<and> normalizedVectorScore r = Some 0 \<and>
            rrfScore r = vectorWeight params * (1 / (60 + real (i + 1))) +
              (case keywordRank r of None \<Rightarrow> 0
               | Some n \<Rightarrow> keywordWeight params * (1 / (60 + real n))) \<and>
            r \<in> set (fuse_legs vs ks params))) \<and>
    (\<forall>j < length ks.
       (if Max (set (map rank ks)) - Min (set (map rank ks)) > 0
        then (rank (ks ! j) - Min (set (map rank ks))) /
             (Max (set (map rank ks)) - Min (set (map rank ks)))
        else 1) < MIN_KEYWORD_SCORE \<longrightarrow>
       c_id (change (ks ! j)) \<notin> n_id ` set (results (normalizeScores (keywordEntries ks) MIN_KEYWORD_SCORE)) \<and>
       (\<exists>r. map_of (fusion_scoreMap vs ks params
                      (normalizeScores (vectorEntries vs) MIN_VECTOR_SCORE)
                      (normalizeScores (keywordEntries ks) MIN_KEYWORD_SCORE)) (c_id (change (ks ! j))) = Some r \<and>
            keywordRank r = Some (j + 1) \<and> normalizedKeywordScore r = Some 0 \<and>
            rrfScore r =
              (case vectorRank r of None \<Rightarrow> 0
               | Some n \<Rightarrow> vectorWeight params * (1 / (60 + real n))) +
              keywordWeight params * (1 / (60 + real (j + 1))) \<and>
            r \<in> set (fuse_legs vs ks params)))"
  using threshold_vector_leg [OF dv dk] threshold_keyword_leg [OF dv dk] by blast


theorem threshold_gate_witness:
  "distinct (map v_changeId ex_vs) \<and> distinct (map (\<lambda>r. c_id (change r)) ex_ks) \<and>
   ''b'' \<notin> n_id ` set (results (normalizeScores (vectorEntries ex_vs) MIN_VECTOR_SCORE)) \<and>
   (\<exists>r. map_of (fusion_scoreMap ex_vs ex_ks ex_params
                  (normalizeScores (vectorEntries ex_vs) MIN_VECTOR_SCORE)
                  (normalizeScores (keywordEntries ex_ks) MIN_KEYWORD_SCORE)) ''b'' = Some r \<and>
        vectorRank r = Some 2 \<and> normalizedVectorScore r = Some 0 \<and>
        r \<in> set (fuse_legs ex_vs ex_ks ex_params)) \<and>
   ''b'' \<notin> n_id ` set (results (normalizeScores (keywordEntries ex_ks) MIN_KEYWORD_SCORE)) \<and>
   (\<exists>r. map_of (fusion_scoreMap ex_vs ex_ks ex_params
                  (normalizeScores (vectorEntries ex_vs) MIN_VECTOR_SCORE)
                  (normalizeScores (keywordEntries ex_ks) MIN_KEYWORD_SCORE)) ''b'' = Some r \<and>
        keywordRank r = Some 1 \<and> normalizedKeywordScore r = Some 0 \<and>
        r \<in> set (fuse_legs ex_vs ex_ks ex_params))"
proof -
  have dv: "distinct (map v_changeId ex_vs)" by (simp add: ex_vs_def)
  have dk: "distinct (map (\<lambda>r. c_id (change r)) ex_ks)" by (simp add: ex_ks_def ex_change_def)
  have i: "Suc 0 < length ex_vs" by (simp add: ex_vs_def)
  have b: "v_changeId (ex_vs ! Suc 0) = ''b''" "v_score (ex_vs ! Suc 0) = 1 / 2"
    by (simp_all add: ex_vs_def)
  have low: "(if Max (set (map v_score ex_vs)) - Min (set (map v_score ex_vs)) > 0
        then (v_score (ex_vs ! Suc 0) - Min (set (map v_score ex_vs))) /
             (Max (set (map v_score ex_vs)) - Min (set (map v_score ex_vs)))
        else 1) < MIN_VECTOR_SCORE"
    unfolding ex_vs_minmax b by (simp add: MIN_VECTOR_SCORE_def)
  have j: "0 < length ex_ks" by (simp add: ex_ks_def)
  have kb: "c_id (change (ex_ks ! 0)) = ''b''" "rank (ex_ks ! 0) = 1"
    by (simp_all add: ex_ks_def ex_change_def)
  have lowk: "(if Max (set (map rank ex_ks)) - Min (set (map rank ex_ks)) > 0
        then (rank (ex_ks ! 0) - Min (set (map rank ex_ks))) /
             (Max (set (map rank ex_ks)) - Min (set (map rank ex_ks)))
        else 1) < MIN_KEYWORD_SCORE"
    unfolding ex_ks_minmax kb by (simp add: MIN_KEYWORD_SCORE_def)
  from threshold_gate [OF dv dk, of ex_params, THEN conjunct1, rule_format, OF i low]
  have v: "''b'' \<notin> n_id ` set (results (normalizeScores (vectorEntries ex_vs) MIN_VECTOR_SCORE)) \<and>
   (\<exists>r. map_of (fusion_scoreMap ex_vs ex_ks ex_params
                  (normalizeScores (vectorEntries ex_vs) MIN_VECTOR_SCORE)
                  (normalizeScores (keywordEntries ex_ks) MIN_KEYWORD_SCORE)) ''b'' = Some r \<and>
        vectorRank r = Some 2 \<and> normalizedVectorScore r = Some 0 \<and>
        r \<in> set (fuse_legs ex_vs ex_ks ex_params))"
    unfolding b by auto
  note tk = threshold_gate [OF dv dk, of ex_params, THEN conjunct2, rule_format, OF j lowk]
  from tk have k1: "''b'' \<notin> n_id ` set (results (normalizeScores (keywordEntries ex_ks) MIN_KEYWORD_SCORE))"
    unfolding kb by (rule conjunct1)
  from tk obtain r where r: "map_of (fusion_scoreMap ex_vs ex_ks ex_params
                  (normalizeScores (vectorEntries ex_vs) MIN_VECTOR_SCORE)
                  (normalizeScores (keywordEntries ex_ks) MIN_KEYWORD_SCORE)) ''b'' = Some r"
      "keywordRank r = Some (0 + 1)" "normalizedKeywordScore r = Some 0"
      "r \<in> set (fuse_legs ex_vs ex_ks ex_params)"
    unfolding kb by blast
  from r(2) have "keywordRank r = Some 1" by simp
  with r(1,3,4) have k2: "\<exists>r. map_of (fusion_scoreMap ex_vs ex_ks ex_params
                  (normalizeScores (vectorEntries ex_vs) MIN_VECTOR_SCORE)
                  (normalizeScores (keywordEntries ex_ks) MIN_KEYWORD_SCORE)) ''b'' = Some r \<and>
        keywordRank r = Some 1 \<and> normalizedKeywordScore r = Some 0 \<and>
        r \<in> set (fuse_legs ex_vs ex_ks ex_params)" by blast
  from k1 k2 have k: "''b'' \<notin> n_id ` set (results (normalizeScores (keywordEntries ex_ks) MIN_KEYWORD_SCORE)) \<and>
   (\<exists>r. map_of (fusion_scoreMap ex_vs ex_ks ex_params
                  (normalizeScores (vectorEntries ex_vs) MIN_VECTOR_SCORE)
                  (normalizeScores (keywordEntries ex_ks) MIN_KEYWORD_SCORE)) ''b'' = Some r \<and>
        keywordRank r = Some 1 \<and> normalizedKeywordScore r = Some 0 \<and>
        r \<in> set (fuse_legs ex_vs ex_ks ex_params))" by (rule conjI)
  from dv dk v k show ?thesis by blast
qed


theorem threshold_gate_counterexample:
  "results (normalizeScores (vectorEntries ex_vs) MIN_VECTOR_SCORE) =
     [\<lparr>n_id = ''a'', n_score = 9 / 10, normalizedScore = 1\<rparr>] \<and>
   fuse_legs ex_vs [] ex_params =
     [\<lparr>changeId = ''a'', vectorRank = Some 1, keywordRank = None,
       vectorScore = Some (9 / 10), keywordScore = None,
       normalizedVectorScore = Some 1, normalizedKeywordScore = None,
       rrfScore = 6 / 10 * (1 / 61), rerankerScore = None\<rparr>,
      \<lparr>changeId = ''b'', vectorRank = Some 2, keywordRank = None,
       vectorScore = Some (5 / 10), keywordScore = None,
       normalizedVectorScore = Some 0, normalizedKeywordScore = None,
       rrfScore = 6 / 10 * (1 / 62), rerankerScore = None\<rparr>]"
proof -
  have "fuse_legs ex_vs [] ex_params =
     js_sort (\<lambda>a b. rrfScore b - rrfScore a)
      (map (\<lambda>(k, result). boost_step result)
        (fusion_scoreMap ex_vs [] ex_params (normalizeScores (vectorEntries ex_vs) MIN_VECTOR_SCORE)
          (normalizeScores (keywordEntries []) MIN_KEYWORD_SCORE)))"
    by (simp add: fuse_legs_def reciprocalRankFusion_def Let_def)
  also have "\<dots> =
     [\<lparr>changeId = ''a'', vectorRank = Some 1, keywordRank = None,
       vectorScore = Some (9 / 10), keywordScore = None,
       normalizedVectorScore = Some 1, normalizedKeywordScore = None,
       rrfScore = 6 / 10 * (1 / 61), rerankerScore = None\<rparr>,
      \<lparr>changeId = ''b'', vectorRank = Some 2, keywordRank = None,
       vectorScore = Some (5 / 10), keywordScore = None,
       normalizedVectorScore = Some 0, normalizedKeywordScore = None,
       rrfScore = 6 / 10 * (1 / 62), rerankerScore = None\<rparr>]"
    unfolding ex_vector_only_scoreMap
    by (simp add: js_sort_def boost_step_def truthy_rank_def)
  finally show ?thesis using ex_nv_results by simp
qed


text \<open>
  Claim C2.  The normalized scores handed to \<open>reciprocalRankFusion\<close> lie in \<open>[0, 1]\<close>, as the
  ones \<open>normalizeScores\<close> returns do.  Every entry \<open>r\<close> of the score map is returned with the
  boost step applied.  For a candidate present in both the vector and the lexical list, both
  normalized scores \<open>a\<close> and \<open>b\<close> are recorded and the boost step multiplies the fusion score
  by exactly \<open>1 + 0.2 * min 1 (a * b)\<close>, a factor in \<open>[1, 1.2]\<close>; a candidate present in only
  one list is left unchanged.
\<close>

theorem overlap_boost:
  assumes nvb: "\<forall>e \<in> set (results nv). 0 \<le> normalizedScore e \<and> normalizedScore e \<le> 1"
    and nkb: "\<forall>e \<in> set (results nk). 0 \<le> normalizedScore e \<and> normalizedScore e \<le> 1"
    and mem: "(c, r) \<in> set (fusion_scoreMap vs ks params nv nk)"
  shows "boost_step r \<in> set (reciprocalRankFusion vs ks params nv nk) \<and>
         (c \<in> v_changeId ` set vs \<and> c \<in> (\<lambda>r. c_id (change r)) ` set ks \<longrightarrow>
            (\<exists>a b. normalizedVectorScore r = Some a \<and> normalizedKeywordScore r = Some b \<and>
                   rrfScore (boost_step r) = rrfScore r * (1 + 0.2 * min 1 (a * b)) \<and>
                   1 \<le> 1 + 0.2 * min 1 (a * b) \<and> 1 + 0.2 * min 1 (a * b) \<le> 1.2)) \<and>
         (\<not> (c \<in> v_changeId ` set vs \<and> c \<in> (\<lambda>r. c_id (change r)) ` set ks) \<longrightarrow>
            boost_step r = r)"
proof -
  have out: "boost_step r \<in> set (reciprocalRankFusion vs ks params nv nk)"
    unfolding set_reciprocalRankFusion using mem by force
  have lk: "map_of (fusion_scoreMap vs ks params nv nk) c = Some r"
    using mem fusion_distinct by (simp add: map_of_eq_Some_iff)
  note fe = fusion_entry [OF lk]
  have both: "\<exists>a b. normalizedVectorScore r = Some a \<and> normalizedKeywordScore r = Some b \<and>
                   rrfScore (boost_step r) = rrfScore r * (1 + 0.2 * min 1 (a * b)) \<and>
                   1 \<le> 1 + 0.2 * min 1 (a * b) \<and> 1 + 0.2 * min 1 (a * b) \<le> 1.2"
    if v: "c \<in> v_changeId ` set vs" and k: "c \<in> (\<lambda>r. c_id (change r)) ` set ks"
  proof -
    let ?a = "nullish_or (map_of (normalizedMap nv) c) 0"
    let ?b = "nullish_or (map_of (normalizedMap nk) c) 0"
    from fe v k obtain n n' where f: "vectorRank r = Some (Suc n)" "keywordRank r = Some (Suc n')"
      "normalizedVectorScore r = Some ?a" "normalizedKeywordScore r = Some ?b" by blast
    have bs: "rrfScore (boost_step r) = rrfScore r * (1 + 0.2 * min 1 (?a * ?b))"
      using f by (simp add: boost_step_def truthy_rank_def overlapBoost_def nullish_or_def)
    from normalizedMap_bounds [OF nvb, of c] normalizedMap_bounds [OF nkb, of c]
    have "1 \<le> 1 + 0.2 * min 1 (?a * ?b) \<and> 1 + 0.2 * min 1 (?a * ?b) \<le> 1.2"
      by (intro overlap_factor_bounds) simp_all
    with bs f(3,4) show ?thesis by blast
  qed
  have single: "boost_step r = r"
    if "\<not> (c \<in> v_changeId ` set vs \<and> c \<in> (\<lambda>r. c_id (change r)) ` set ks)"
  proof -
    from fe have a: "c \<notin> v_changeId ` set vs \<longrightarrow> vectorRank r = None"
      and b: "c \<notin> (\<lambda>r. c_id (change r)) ` set ks \<longrightarrow> keywordRank r = None" by simp_all
    from that a b have "vectorRank r = None \<or> keywordRank r = None" by auto
    then show ?thesis by (auto simp: boost_step_def truthy_rank_def)
  qed
  from out both single show ?thesis by blast
qed


theorem overlap_boost_witness:
  "(''b'', ex2_b) \<in> set (fusion_scoreMap ex2_vs ex2_ks ex_params ex2_nv ex2_nk) \<and>
   boost_step ex2_b \<in> set (reciprocalRankFusion ex2_vs ex2_ks ex_params ex2_nv ex2_nk) \<and>
   rrfScore (boost_step ex2_b) = (6 / 10 * (1 / 61) + 4 / 10 * (1 / 62)) * (12 / 10) \<and>
   (''a'', ex2_a) \<in> set (fusion_scoreMap ex2_vs ex2_ks ex_params ex2_nv ex2_nk) \<and>
   boost_step ex2_a = ex2_a"
proof -
  have nvb: "\<forall>e \<in> set (results ex2_nv). 0 \<le> normalizedScore e \<and> normalizedScore e \<le> 1"
    unfolding ex2_nv_def using normalizeScores_unit_interval by blast
  have nkb: "\<forall>e \<in> set (results ex2_nk). 0 \<le> normalizedScore e \<and> normalizedScore e \<le> 1"
    unfolding ex2_nk_def using normalizeScores_unit_interval by blast
  have mem: "(''b'', ex2_b) \<in> set (fusion_scoreMap ex2_vs ex2_ks ex_params ex2_nv ex2_nk)"
    using ex2_lookup by (rule map_of_SomeD)
  have mema: "(''a'', ex2_a) \<in> set (fusion_scoreMap ex2_vs ex2_ks ex_params ex2_nv ex2_nk)"
    using ex2_lookup_a by (rule map_of_SomeD)
  have v: "''b'' \<in> v_changeId ` set ex2_vs" by (simp add: ex2_vs_def)
  have k: "''b'' \<in> (\<lambda>r. c_id (change r)) ` set ex2_ks" by (simp add: ex2_ks_def ex_change_def)
  have na: "\<not> (''a'' \<in> v_changeId ` set ex2_vs \<and> ''a'' \<in> (\<lambda>r. c_id (change r)) ` set ex2_ks)"
    by (simp add: ex2_ks_def ex_change_def)
  note th = overlap_boost [OF nvb nkb mem]
  note tha = overlap_boost [OF nvb nkb mema]
  from th have out: "boost_step ex2_b \<in> set (reciprocalRankFusion ex2_vs ex2_ks ex_params ex2_nv ex2_nk)"
    by (rule conjunct1)
  from th v k obtain a b where ab: "normalizedVectorScore ex2_b = Some a"
    "normalizedKeywordScore ex2_b = Some b"
    "rrfScore (boost_step ex2_b) = rrfScore ex2_b * (1 + 0.2 * min 1 (a * b))" by blast
  from ab(1,2) have "a = 1" "b = 1" by (simp_all add: ex2_b_def)
  with ab(3) have sc: "rrfScore (boost_step ex2_b) = (6 / 10 * (1 / 61) + 4 / 10 * (1 / 62)) * (12 / 10)"
    by (simp add: ex2_b_def)
  from tha na have single: "boost_step ex2_a = ex2_a" by blast
  from mem out sc mema single show ?thesis by (intro conjI)
qed

text \<open>
  Claim C3.  With candidate ids distinct within each leg, the result at 1-based rank \<open>i + 1\<close>
  of the vector list contributes \<open>vectorWeight * (1 / (60 + (i + 1)))\<close> and the result at rank
  \<open>j + 1\<close> of the lexical list contributes \<open>keywordWeight * (1 / (60 + (j + 1)))\<close> to the
  candidate's fusion score before the overlap boost: a candidate of one leg only has exactly
  that leg's contribution as its score, a candidate of both legs the sum of the two.
\<close>

theorem rrf_contributions:
  assumes dv: "distinct (map v_changeId vs)"
    and dk: "distinct (map (\<lambda>r. c_id (change r)) ks)"
  shows "(\<forall>i < length vs. v_changeId (vs ! i) \<notin> (\<lambda>r. c_id (change r)) ` set ks \<longrightarrow>
            (\<exists>r. map_of (fusion_scoreMap vs ks params nv nk) (v_changeId (vs ! i)) = Some r \<and>
                 rrfScore r = vectorWeight params * (1 / (60 + real (i + 1))))) \<and>
         (\<forall>j < length ks. c_id (change (ks ! j)) \<notin> v_changeId ` set vs \<longrightarrow>
            (\<exists>r. map_of (fusion_scoreMap vs ks params nv nk) (c_id (change (ks ! j))) = Some r \<and>
                 rrfScore r = keywordWeight params * (1 / (60 + real (j + 1))))) \<and>
         (\<forall>i < length vs. \<forall>j < length ks. v_changeId (vs ! i) = c_id (change (ks ! j)) \<longrightarrow>
            (\<exists>r. map_of (fusion_scoreMap vs ks params nv nk) (v_changeId (vs ! i)) = Some r \<and>
                 rrfScore r = vectorWeight params * (1 / (60 + real (i + 1))) +
                              keywordWeight params * (1 / (60 + real (j + 1)))))"
proof (intro conjI allI impI)
  fix i assume "i < length vs" "v_changeId (vs ! i) \<notin> (\<lambda>r. c_id (change r)) ` set ks"
  from fusion_vector_only [OF dv this]
  show "\<exists>r. map_of (fusion_scoreMap vs ks params nv nk) (v_changeId (vs ! i)) = Some r \<and>
             rrfScore r = vectorWeight params * (1 / (60 + real (i + 1)))"
    by (simp add: rrfScore_vector_entry)
next
  fix j assume "j < length ks" "c_id (change (ks ! j)) \<notin> v_changeId ` set vs"
  from fusion_keyword_only [OF dk this]
  show "\<exists>r. map_of (fusion_scoreMap vs ks params nv nk) (c_id (change (ks ! j))) = Some r \<and>
             rrfScore r = keywordWeight params * (1 / (60 + real (j + 1)))"
    by (simp add: rrfScore_keyword_entry_None)
next
  fix i j assume "i < length vs" "j < length ks" "v_changeId (vs ! i) = c_id (change (ks ! j))"
  from fusion_both [OF dv this(1) dk this(2,3)]
  show "\<exists>r. map_of (fusion_scoreMap vs ks params nv nk) (v_changeId (vs ! i)) = Some r \<and>
             rrfScore r = vectorWeight params * (1 / (60 + real (i + 1))) +
                          keywordWeight params * (1 / (60 + real (j + 1)))"
    by (simp add: rrfScore_keyword_entry_Some rrfScore_vector_entry)
qed


theorem rrf_contributions_witness:
  "distinct (map v_changeId ex_vs) \<and> distinct (map (\<lambda>r. c_id (change r)) ex_ks) \<and>
   (\<exists>r. map_of (fusion_scoreMap ex_vs ex_ks ex_params ex_nv ex_nk) ''a'' = Some r \<and>
        rrfScore r = 6 / 10 * (1 / 61)) \<and>
   (\<exists>r. map_of (fusion_scoreMap ex_vs ex_ks ex_params ex_nv ex_nk) ''c'' = Some r \<and>
        rrfScore r = 4 / 10 * (1 / 62)) \<and>
   (\<exists>r. map_of (fusion_scoreMap ex_vs ex_ks ex_params ex_nv ex_nk) ''b'' = Some r \<and>
        rrfScore r = 6 / 10 * (1 / 62) + 4 / 10 * (1 / 61))"
proof -
  have dv: "distinct (map v_changeId ex_vs)" by (simp add: ex_vs_def)
  have dk: "distinct (map (\<lambda>r. c_id (change r)) ex_ks)" by (simp add: ex_ks_def ex_change_def)
  note th = rrf_contributions [OF dv dk, of ex_params ex_nv ex_nk]
  have va: "v_changeId (ex_vs ! 0) = ''a''" and vb: "v_changeId (ex_vs ! Suc 0) = ''b''"
    and lv: "length ex_vs = 2" by (simp_all add: ex_vs_def)
  have kb: "c_id (change (ex_ks ! 0)) = ''b''" and kc: "c_id (change (ex_ks ! Suc 0)) = ''c''"
    and lk: "length ex_ks = 2" by (simp_all add: ex_ks_def ex_change_def)
  have vids: "v_changeId ` set ex_vs = {''a'', ''b''}" by (simp add: ex_vs_def)
  have kids: "(\<lambda>r. c_id (change r)) ` set ex_ks = {''b'', ''c''}"
    by (simp add: ex_ks_def ex_change_def)
  have vw: "vectorWeight ex_params = 6 / 10" and kw: "keywordWeight ex_params = 4 / 10"
    by (simp_all add: ex_params_def)
  have a: "\<exists>r. map_of (fusion_scoreMap ex_vs ex_ks ex_params ex_nv ex_nk) ''a'' = Some r \<and>
        rrfScore r = 6 / 10 * (1 / 61)"
    using th [THEN conjunct1, rule_format, of 0] by (simp add: va lv kids vw)
  have c: "\<exists>r. map_of (fusion_scoreMap ex_vs ex_ks ex_params ex_nv ex_nk) ''c'' = Some r \<and>
        rrfScore r = 4 / 10 * (1 / 62)"
    using th [THEN conjunct2, THEN conjunct1, rule_format, of "Suc 0"] by (simp add: kc lk vids kw)
  have b: "\<exists>r. map_of (fusion_scoreMap ex_vs ex_ks ex_params ex_nv ex_nk) ''b'' = Some r \<and>
        rrfScore r = 6 / 10 * (1 / 62) + 4 / 10 * (1 / 61)"
    using th [THEN conjunct2, THEN conjunct2, rule_format, of "Suc 0" 0] by (simp add: vb kb lv lk vw kw)
  from dv dk a c b show ?thesis by (intro conjI)
qed


text \<open>
  Claim C4.  For a non-empty input, every entry \<open>e\<close> that \<open>normalizeScores\<close> returns comes
  from an input entry, has its \<open>normalizedScore\<close> in \<open>[0, 1]\<close>, computed as
  \<open>(score - min) / (max - min)\<close> over the minimum and maximum of the raw input scores when
  these differ; when they are equal (in particular when all raw scores are equal) the
  \<open>normalizedScore\<close> is \<open>1\<close>.
\<close>

theorem normalizeScores_bounds:
  assumes "rs \<noteq> []" and "e \<in> set (results (normalizeScores rs t))"
  shows "0 \<le> normalizedScore e \<and> normalizedScore e \<le> 1 \<and>
         (\<exists>r \<in> set rs. n_id e = s_id r \<and> n_score e = s_score r) \<and>
         (Max (set (map s_score rs)) \<noteq> Min (set (map s_score rs)) \<longrightarrow>
            normalizedScore e =
              (n_score e - Min (set (map s_score rs))) /
              (Max (set (map s_score rs)) - Min (set (map s_score rs)))) \<and>
         (Max (set (map s_score rs)) = Min (set (map s_score rs)) \<longrightarrow> normalizedScore e = 1) \<and>
         ((\<forall>r \<in> set rs. \<forall>r' \<in> set rs. s_score r = s_score r') \<longrightarrow> normalizedScore e = 1)"
proof -
  let ?S = "set (map s_score rs)"
  let ?mn = "Min ?S" and ?mx = "Max ?S"
  from normalizeScores_entry [OF assms] obtain r where r: "r \<in> set rs"
    and id: "n_id e = s_id r" and sc: "n_score e = s_score r"
    and ns: "normalizedScore e = (if ?mx - ?mn > 0 then (s_score r - ?mn) / (?mx - ?mn) else 1)"
    by blast
  have fin: "finite ?S" by simp
  have mem: "s_score r \<in> ?S" using r by simp
  have lo: "?mn \<le> s_score r" using fin mem by (rule Min_le)
  have hi: "s_score r \<le> ?mx" using fin mem by (rule Max_ge)
  have le: "?mn \<le> ?mx" using lo hi by simp
  have b: "0 \<le> normalizedScore e \<and> normalizedScore e \<le> 1"
    using assms(2) by (rule normalizeScores_unit_interval)
  have f: "?mx \<noteq> ?mn \<longrightarrow> normalizedScore e = (n_score e - ?mn) / (?mx - ?mn)"
  proof
    assume "?mx \<noteq> ?mn"
    with le have "?mx - ?mn > 0" by simp
    then have "normalizedScore e = (s_score r - ?mn) / (?mx - ?mn)" using ns by (simp only: if_True)
    then show "normalizedScore e = (n_score e - ?mn) / (?mx - ?mn)" by (simp only: sc)
  qed
  have g: "?mx = ?mn \<longrightarrow> normalizedScore e = 1"
  proof
    assume "?mx = ?mn"
    then have "\<not> ?mx - ?mn > 0" by simp
    then show "normalizedScore e = 1" using ns by (simp only: if_False)
  qed
  have h: "(\<forall>r \<in> set rs. \<forall>r' \<in> set rs. s_score r = s_score r') \<longrightarrow> normalizedScore e = 1"
  proof
    assume eq: "\<forall>r \<in> set rs. \<forall>r' \<in> set rs. s_score r = s_score r'"
    have ne: "?S \<noteq> {}" using assms(1) by simp
    have "?mx \<in> ?S" using fin ne by (rule Max_in)
    then obtain a where a: "a \<in> set rs" "?mx = s_score a" by auto
    have "?mn \<in> ?S" using fin ne by (rule Min_in)
    then obtain b where b: "b \<in> set rs" "?mn = s_score b" by auto
    from eq a(1) b(1) have "s_score a = s_score b" by blast
    with a(2) b(2) have "?mx = ?mn" by simp
    with g show "normalizedScore e = 1" by blast
  qed
  have o: "\<exists>r \<in> set rs. n_id e = s_id r \<and> n_score e = s_score r" using r id sc by blast
  from b o f g h show ?thesis by blast
qed



theorem normalizeScores_bounds_witness:
  "ex_vector_scores \<noteq> [] \<and>
   hd (results (normalizeScores ex_vector_scores MIN_VECTOR_SCORE))
     \<in> set (results (normalizeScores ex_vector_scores MIN_VECTOR_SCORE)) \<and>
   0 \<le> normalizedScore (hd (results (normalizeScores ex_vector_scores MIN_VECTOR_SCORE))) \<and>
   normalizedScore (hd (results (normalizeScores ex_vector_scores MIN_VECTOR_SCORE))) \<le> 1 \<and>
   ex_equal_scores \<noteq> [] \<and>
   hd (results (normalizeScores ex_equal_scores MIN_VECTOR_SCORE))
     \<in> set (results (normalizeScores ex_equal_scores MIN_VECTOR_SCORE)) \<and>
   normalizedScore (hd (results (normalizeScores ex_equal_scores MIN_VECTOR_SCORE))) = 1"
proof -
  let ?e1 = "hd (results (normalizeScores ex_vector_scores MIN_VECTOR_SCORE))"
  let ?e2 = "hd (results (normalizeScores ex_equal_scores MIN_VECTOR_SCORE))"
  have ne1: "ex_vector_scores \<noteq> []" by (simp add: ex_vector_scores_def)
  have mem1: "?e1 \<in> set (results (normalizeScores ex_vector_scores MIN_VECTOR_SCORE))"
    by (simp add: ex_vector_scores_normalized)
  have ne2: "ex_equal_scores \<noteq> []" by (simp add: ex_equal_scores_def)
  have mem2: "?e2 \<in> set (results (normalizeScores ex_equal_scores MIN_VECTOR_SCORE))"
    by (simp add: ex_equal_scores_normalized)
  have eq: "\<forall>r \<in> set ex_equal_scores. \<forall>r' \<in> set ex_equal_scores. s_score r = s_score r'"
    by (simp add: ex_equal_scores_def)
  note th1 = normalizeScores_bounds [OF ne1 mem1]
  note th2 = normalizeScores_bounds [OF ne2 mem2]
  from th1 have a: "0 \<le> normalizedScore ?e1" by (rule conjunct1)
  from th1 have b: "normalizedScore ?e1 \<le> 1" by (rule conjunct2 [THEN conjunct1])
  from th2 have "(\<forall>r \<in> set ex_equal_scores. \<forall>r' \<in> set ex_equal_scores. s_score r = s_score r') \<longrightarrow>
      normalizedScore ?e2 = 1"
    by (rule conjunct2 [THEN conjunct2, THEN conjunct2, THEN conjunct2, THEN conjunct2])
  then have c: "normalizedScore ?e2 = 1" using eq by (rule mp)
  from ne1 mem1 a b ne2 mem2 c show ?thesis by (intro conjI)
qed



text \<open>
  Claim C5.  When the embedding of the query or the search of the vector store throws, the
  vector leg is the empty list, and the error does not leave \<open>search\<close>: an error \<open>search\<close> ends
  with is one that \<open>getChange\<close> of the metadata store threw, and where \<open>getChange\<close> does not
  throw, \<open>search\<close> returns.  What it returns comes from the lexical leg alone.  Every result has
  no vector score and is the stored record of a lexical hit; when the lexical hits are no more
  than the result cap, every lexical hit whose record is stored is among the results, with a
  keyword score, and for hits of distinct ids the records returned are exactly the stored
  records of the hits.  When the lexical leg throws as well there is no result.  The sort of
  the host, which the reranking stage may ask, is taken to return a permutation.
\<close>

theorem vector_leg_degrades:
  assumes throws: "vector_leg_throws e (naturalLanguage query) (rerankTopK (search_params query))
             (Some (enrichFilters (now e) (naturalLanguage query) (filters query)))"
    and host: "sort_permutes (array_sort e)"
  shows "vectorSearch e (naturalLanguage query) (rerankTopK (search_params query))
           (Some (enrichFilters (now e) (naturalLanguage query) (filters query))) = [] \<and>
         (\<forall>err. search e query = Inl err \<longrightarrow> (\<exists>cid. getChange e cid = Inl err)) \<and>
         ((\<forall>cid. \<exists>c. getChange e cid = Inr c) \<longrightarrow> (\<exists>rs. search e query = Inr rs)) \<and>
         (\<forall>ks rs.
            searchChanges e (workspaceId e) (prepareFTSQuery (naturalLanguage query))
              (rerankTopK (search_params query)) = Inr ks \<and>
            search e query = Inr rs \<longrightarrow>
              (\<forall>r \<in> set rs. sr_vectorScore r = None \<and>
                 (\<exists>k \<in> set ks. getChange e (c_id (change k)) = Inr (Some (sr_change r)))) \<and>
              (length ks \<le> MAX_RESULTS \<longrightarrow>
                 (\<forall>k \<in> set ks. \<forall>c. getChange e (c_id (change k)) = Inr (Some c) \<longrightarrow>
                    (\<exists>r \<in> set rs. sr_change r = c \<and> sr_vectorScore r = None \<and>
                                     sr_keywordScore r \<noteq> None)) \<and>
                 (distinct (map (\<lambda>k. c_id (change k)) ks) \<longrightarrow>
                    mset (map sr_change rs) =
                      mset (concat (map (\<lambda>k. case getChange e (c_id (change k)) of
                                                Inr (Some c) \<Rightarrow> [c] | _ \<Rightarrow> []) ks))))) \<and>
         (\<forall>err. searchChanges e (workspaceId e) (prepareFTSQuery (naturalLanguage query))
                  (rerankTopK (search_params query)) = Inl err \<longrightarrow> search e query = Inr [])"
proof -
  let ?n = "rerankTopK (search_params query)"
  let ?K = "keywordSearch e (naturalLanguage query) ?n"
  have v: "vectorSearch e (naturalLanguage query) ?n
           (Some (enrichFilters (now e) (naturalLanguage query) (filters query))) = []"
    using throws by (rule vector_leg_throws_empty)
  have s: "search e query = search_from_legs e query [] ?K"
    by (simp add: search_def Let_def v)
  note only = search_from_legs_lexical_only [OF host, of query ?K]
  have a: "\<forall>err. search e query = Inl err \<longrightarrow> (\<exists>cid. getChange e cid = Inl err)"
    unfolding s using only by (rule conjunct1)
  have b: "(\<forall>cid. \<exists>c. getChange e cid = Inr c) \<longrightarrow> (\<exists>rs. search e query = Inr rs)"
    unfolding s using only by (rule conjunct2 [THEN conjunct1])
  have c: "\<forall>ks rs.
            searchChanges e (workspaceId e) (prepareFTSQuery (naturalLanguage query)) ?n = Inr ks \<and>
            search e query = Inr rs \<longrightarrow>
              (\<forall>r \<in> set rs. sr_vectorScore r = None \<and>
                 (\<exists>k \<in> set ks. getChange e (c_id (change k)) = Inr (Some (sr_change r)))) \<and>
              (length ks \<le> MAX_RESULTS \<longrightarrow>
                 (\<forall>k \<in> set ks. \<forall>c. getChange e (c_id (change k)) = Inr (Some c) \<longrightarrow>
                    (\<exists>r \<in> set rs. sr_change r = c \<and> sr_vectorScore r = None \<and>
                                     sr_keywordScore r \<noteq> None)) \<and>
                 (distinct (map (\<lambda>k. c_id (change k)) ks) \<longrightarrow>
                    mset (map sr_change rs) =
                      mset (concat (map (\<lambda>k. case getChange e (c_id (change k)) of
                                                Inr (Some c) \<Rightarrow> [c] | _ \<Rightarrow> []) ks))))"
  proof (intro allI impI, elim conjE)
    fix ks rs
    assume ks: "searchChanges e (workspaceId e) (prepareFTSQuery (naturalLanguage query)) ?n = Inr ks"
      and rs: "search e query = Inr rs"
    from ks have K: "?K = ks" by (simp add: keywordSearch_def)
    from rs have sl: "search_from_legs e query [] ks = Inr rs" by (simp only: s K)
    from search_from_legs_lexical_only [OF host, of query ks, THEN conjunct2, THEN conjunct2] sl
    have sound: "\<forall>r \<in> set rs. sr_vectorScore r = None \<and>
                 (\<exists>k \<in> set ks. getChange e (c_id (change k)) = Inr (Some (sr_change r)))"
      by blast
    have complete: "length ks \<le> MAX_RESULTS \<longrightarrow>
                 (\<forall>k \<in> set ks. \<forall>c. getChange e (c_id (change k)) = Inr (Some c) \<longrightarrow>
                    (\<exists>r \<in> set rs. sr_change r = c \<and> sr_vectorScore r = None \<and>
                                     sr_keywordScore r \<noteq> None)) \<and>
                 (distinct (map (\<lambda>k. c_id (change k)) ks) \<longrightarrow>
                    mset (map sr_change rs) =
                      mset (concat (map (\<lambda>k. case getChange e (c_id (change k)) of
                                                Inr (Some c) \<Rightarrow> [c] | _ \<Rightarrow> []) ks)))"
    proof
      assume len: "length ks \<le> MAX_RESULTS"
      from search_from_legs_lexical_complete [OF host sl len]
      show "(\<forall>k \<in> set ks. \<forall>c. getChange e (c_id (change k)) = Inr (Some c) \<longrightarrow>
                    (\<exists>r \<in> set rs. sr_change r = c \<and> sr_vectorScore r = None \<and>
                                     sr_keywordScore r \<noteq> None)) \<and>
                 (distinct (map (\<lambda>k. c_id (change k)) ks) \<longrightarrow>
                    mset (map sr_change rs) =
                      mset (concat (map (\<lambda>k. case getChange e (c_id (change k)) of
                                                Inr (Some c) \<Rightarrow> [c] | _ \<Rightarrow> []) ks)))"
        by (rule conjI)
    qed
    from sound complete
    show "(\<forall>r \<in> set rs. sr_vectorScore r = None \<and>
                 (\<exists>k \<in> set ks. getChange e (c_id (change k)) = Inr (Some (sr_change r)))) \<and>
              (length ks \<le> MAX_RESULTS \<longrightarrow>
                 (\<forall>k \<in> set ks. \<forall>c. getChange e (c_id (change k)) = Inr (Some c) \<longrightarrow>
                    (\<exists>r \<in> set rs. sr_change r = c \<and> sr_vectorScore r = None \<and>
                                     sr_keywordScore r \<noteq> None)) \<and>
                 (distinct (map (\<lambda>k. c_id (change k)) ks) \<longrightarrow>
                    mset (map sr_change rs) =
                      mset (concat (map (\<lambda>k. case getChange e (c_id (change k)) of
                                                Inr (Some c) \<Rightarrow> [c] | _ \<Rightarrow> []) ks))))"
      by (rule conjI)
  qed
  have d: "\<forall>err. searchChanges e (workspaceId e) (prepareFTSQuery (naturalLanguage query)) ?n = Inl err \<longrightarrow>
             search e query = Inr []"
  proof (intro allI impI)
    fix err
    assume "searchChanges e (workspaceId e) (prepareFTSQuery (naturalLanguage query)) ?n = Inl err"
    then have "?K = []" by (simp add: keywordSearch_def)
    then show "search e query = Inr []" by (simp only: s search_from_legs_empty)
  qed
  from v a b c d show ?thesis by (intro conjI)
qed

theorem vector_leg_degrades_witness:
  "vector_leg_throws ex_env (naturalLanguage ex_query) (rerankTopK (search_params ex_query))
     (Some (enrichFilters (now ex_env) (naturalLanguage ex_query) (filters ex_query))) \<and>
   sort_permutes (array_sort ex_env) \<and>
   searchChanges ex_env (workspaceId ex_env) (prepareFTSQuery (naturalLanguage ex_query))
     (rerankTopK (search_params ex_query)) = Inr ex_ks \<and>
   search ex_env ex_query =
     Inr [\<lparr>sr_change = ex_change ''b'', sr_score = 4 / 10 * (1 / 61), sr_vectorScore = None,
           sr_keywordScore = Some 1,
           highlights = Some [\<lparr>h_field = ''filePath'', snippet = ''src/parser.ts'',
                                matchedTerms = [''parser'']\<rparr>]\<rparr>,
          \<lparr>sr_change = ex_change ''c'', sr_score = 4 / 10 * (1 / 62), sr_vectorScore = None,
           sr_keywordScore = Some 2,
           highlights = Some [\<lparr>h_field = ''filePath'', snippet = ''src/parser.ts'',
                                matchedTerms = [''parser'']\<rparr>]\<rparr>] \<and>
   mset [ex_change ''b'', ex_change ''c''] =
     mset (concat (map (\<lambda>k. case getChange ex_env (c_id (change k)) of
                               Inr (Some c) \<Rightarrow> [c] | _ \<Rightarrow> []) ex_ks))"
proof -
  have t: "vector_leg_throws ex_env (naturalLanguage ex_query) (rerankTopK (search_params ex_query))
     (Some (enrichFilters (now ex_env) (naturalLanguage ex_query) (filters ex_query)))"
    by (simp add: vector_leg_throws_def ex_env_fields)
  have host: "sort_permutes (array_sort ex_env)"
    unfolding ex_env_fields by (rule sort_permutes_short_array_sort)
  have ks: "searchChanges ex_env (workspaceId ex_env) (prepareFTSQuery (naturalLanguage ex_query))
     (rerankTopK (search_params ex_query)) = Inr ex_ks"
    by (simp add: ex_env_fields)
  note rs = ex_search_result
  have len: "length ex_ks \<le> MAX_RESULTS" by (simp add: ex_ks_def MAX_RESULTS_def)
  have dist: "distinct (map (\<lambda>k. c_id (change k)) ex_ks)" by (simp add: ex_ks_def ex_change_def)
  note th = vector_leg_degrades [OF t host, THEN conjunct2, THEN conjunct2, THEN conjunct2,
      THEN conjunct1, THEN spec, THEN spec, THEN mp, OF conjI [OF ks rs], THEN conjunct2, THEN mp,
      OF len, THEN conjunct2, THEN mp, OF dist]
  from th have m: "mset [ex_change ''b'', ex_change ''c''] =
     mset (concat (map (\<lambda>k. case getChange ex_env (c_id (change k)) of
                               Inr (Some c) \<Rightarrow> [c] | _ \<Rightarrow> []) ex_ks))"
    by simp
  from t host ks rs m show ?thesis by (intro conjI)
qed


text \<open>
  Claim C6, as amended.  When the reranker returned, the reranking stage returns every
  candidate, none dropped, each with the score the reranker gave to its id (the last one, should
  the reranker return an id twice) and with its fusion score as it was.  The list is the result
  of a sort with a pairwise order: two candidates that both have a reranker score are ordered
  by reranker score, descending, and the two of every other pair by fusion score, descending; a
  reranker score is never compared with a fusion score.  Wherever this order is transitive on
  the candidates the returned list is sorted by it.  It is so when every candidate has a
  reranker score, and the list is then descending by reranker score, and when none has, and the
  list is then descending by fusion score.  On a mixed list the order need not be transitive
  (\<open>ex_cycle\<close>); the order of the list is then the one the sort of the host leaves
  (\<open>ex_mixed_result\<close>, \<open>ex_mixed_unsorted\<close>), taken to be a permutation.  The cut to the
  result cap comes later, in the hydration.
\<close>

theorem reranking_order:
  assumes docs: "rerank_documents e (take TOP_K rs) = Inr documents" and ne: "documents \<noteq> []"
    and rr: "reranker_rerank e q documents MAX_RESULTS = Inr reranked"
    and host: "sort_permutes (array_sort e)"
  shows "mset (applyReranking e q rs) =
           mset (map (\<lambda>r. r\<lparr>rerankerScore :=
                             map_of (map (\<lambda>x. (rr_id x, rr_score x)) (rev reranked)) (changeId r)\<rparr>) rs) \<and>
         ((\<forall>a \<in> set (applyReranking e q rs). \<forall>b \<in> set (applyReranking e q rs).
             \<forall>c \<in> set (applyReranking e q rs).
               ranks_before a b \<longrightarrow> ranks_before b c \<longrightarrow> ranks_before a c) \<longrightarrow>
            sorted_wrt ranks_before (applyReranking e q rs)) \<and>
         ((\<forall>r \<in> set (applyReranking e q rs). rerankerScore r \<noteq> None) \<longrightarrow>
            sorted_wrt (\<lambda>a b. the (rerankerScore b) \<le> the (rerankerScore a)) (applyReranking e q rs)) \<and>
         ((\<forall>r \<in> set (applyReranking e q rs). rerankerScore r = None) \<longrightarrow>
            sorted_wrt (\<lambda>a b. rrfScore b \<le> rrfScore a) (applyReranking e q rs))"
proof -
  let ?U = "updatedResults reranked rs"
  note s = applyReranking_success [OF docs ne rr]
  have m: "mset (applyReranking e q rs) = mset ?U"
    unfolding s using host by (rule mset_js_array_sort)
  then have st: "set (applyReranking e q rs) = set ?U" by (rule mset_eq_setD)
  have perm: "mset (applyReranking e q rs) =
           mset (map (\<lambda>r. r\<lparr>rerankerScore :=
                             map_of (map (\<lambda>x. (rr_id x, rr_score x)) (rev reranked)) (changeId r)\<rparr>) rs)"
    using m by (simp only: updatedResults_eq)
  have tr: "(\<forall>a \<in> set (applyReranking e q rs). \<forall>b \<in> set (applyReranking e q rs).
             \<forall>c \<in> set (applyReranking e q rs).
               ranks_before a b \<longrightarrow> ranks_before b c \<longrightarrow> ranks_before a c) \<longrightarrow>
            sorted_wrt ranks_before (applyReranking e q rs)"
    unfolding st unfolding s using sorted_ranks_before(2) by blast
  have al: "(\<forall>r \<in> set (applyReranking e q rs). rerankerScore r \<noteq> None) \<longrightarrow>
            sorted_wrt (\<lambda>a b. the (rerankerScore b) \<le> the (rerankerScore a)) (applyReranking e q rs)"
    unfolding st unfolding s using sorted_rerank_all_scored by blast
  have no: "(\<forall>r \<in> set (applyReranking e q rs). rerankerScore r = None) \<longrightarrow>
            sorted_wrt (\<lambda>a b. rrfScore b \<le> rrfScore a) (applyReranking e q rs)"
    unfolding st unfolding s using sorted_rerank_none_scored by blast
  from perm tr al no show ?thesis by (intro conjI)
qed

theorem reranking_order_witness:
  "rerank_documents ex_env_rr (take TOP_K [ex_ra, ex_rb]) = Inr [ex_doc_b] \<and>
   reranker_rerank ex_env_rr ''q'' [ex_doc_b] MAX_RESULTS =
     Inr [\<lparr>rr_id = ''b'', rr_score = 9 / 10, rr_originalScore = Some (1 / 100)\<rparr>] \<and>
   sort_permutes (array_sort ex_env_rr) \<and>
   applyReranking ex_env_rr ''q'' [ex_ra, ex_rb] = [ex_ra, ex_rb\<lparr>rerankerScore := Some (9 / 10)\<rparr>] \<and>
   mset [ex_ra, ex_rb\<lparr>rerankerScore := Some (9 / 10)\<rparr>] =
     mset (map (\<lambda>r. r\<lparr>rerankerScore := map_of [(''b'', 9 / 10)] (changeId r)\<rparr>) [ex_ra, ex_rb]) \<and>
   sorted_wrt ranks_before [ex_ra, ex_rb\<lparr>rerankerScore := Some (9 / 10)\<rparr>] \<and>
   rerank_documents ex_env_mixed (take TOP_K ex_mixed) = Inr ex_mixed_docs \<and>
   reranker_rerank ex_env_mixed ''q'' ex_mixed_docs MAX_RESULTS = Inr ex_mixed_scores \<and>
   sort_permutes (array_sort ex_env_mixed) \<and>
   applyReranking ex_env_mixed ''q'' ex_mixed = ex_mixed_out \<and>
   mset ex_mixed_out =
     mset (map (\<lambda>r. r\<lparr>rerankerScore :=
                       map_of (map (\<lambda>x. (rr_id x, rr_score x)) (rev ex_mixed_scores)) (changeId r)\<rparr>) ex_mixed)"
proof -
  have ne: "[ex_doc_b] \<noteq> []" by simp
  have host: "sort_permutes (array_sort ex_env_rr)"
    unfolding ex_rr_fields by (rule sort_permutes_short_array_sort)
  note r = ex_rr_result [of "''q''"]
  note th = reranking_order [OF ex_rr_documents ne ex_rr_reranked [of "''q''"] host]
  from th have a: "mset [ex_ra, ex_rb\<lparr>rerankerScore := Some (9 / 10)\<rparr>] =
     mset (map (\<lambda>r. r\<lparr>rerankerScore := map_of [(''b'', 9 / 10)] (changeId r)\<rparr>) [ex_ra, ex_rb])"
    unfolding r by simp
  from th have "(\<forall>a \<in> set [ex_ra, ex_rb\<lparr>rerankerScore := Some (9 / 10)\<rparr>].
       \<forall>b \<in> set [ex_ra, ex_rb\<lparr>rerankerScore := Some (9 / 10)\<rparr>].
       \<forall>c \<in> set [ex_ra, ex_rb\<lparr>rerankerScore := Some (9 / 10)\<rparr>].
         ranks_before a b \<longrightarrow> ranks_before b c \<longrightarrow> ranks_before a c) \<longrightarrow>
      sorted_wrt ranks_before [ex_ra, ex_rb\<lparr>rerankerScore := Some (9 / 10)\<rparr>]"
    unfolding r by (rule conjunct2 [THEN conjunct1])
  then have c: "sorted_wrt ranks_before [ex_ra, ex_rb\<lparr>rerankerScore := Some (9 / 10)\<rparr>]"
    using ex_rr_transitive by (rule mp)
  have ne2: "ex_mixed_docs \<noteq> []" by (simp add: ex_mixed_docs_def)
  have host2: "sort_permutes (array_sort ex_env_mixed)"
    unfolding ex_mixed_fields by (rule sort_permutes_short_array_sort)
  note th2 = reranking_order [OF ex_mixed_documents ne2 ex_mixed_reranked [of "''q''"] host2,
      THEN conjunct1]
  from th2 have d: "mset ex_mixed_out =
     mset (map (\<lambda>r. r\<lparr>rerankerScore :=
                       map_of (map (\<lambda>x. (rr_id x, rr_score x)) (rev ex_mixed_scores)) (changeId r)\<rparr>) ex_mixed)"
    by (simp only: ex_mixed_result)
  from ex_rr_documents ex_rr_reranked [of "''q''"] host r a c
    ex_mixed_documents ex_mixed_reranked [of "''q''"] host2 ex_mixed_result d
  show ?thesis by (intro conjI)
qed

theorem reranking_order_counterexample:
  "applyReranking ex_env_rr ''q'' [ex_ra, ex_rb] = [ex_ra, ex_rb\<lparr>rerankerScore := Some (9 / 10)\<rparr>] \<and>
   effective_score_spec ex_ra = 2 / 100 \<and>
   effective_score_spec (ex_rb\<lparr>rerankerScore := Some (9 / 10)\<rparr>) = 9 / 10"
proof -
  have "applyReranking ex_env_rr ''q'' [ex_ra, ex_rb] = [ex_ra, ex_rb\<lparr>rerankerScore := Some (9 / 10)\<rparr>]"
    by (rule ex_rr_result)
  moreover have "effective_score_spec ex_ra = 2 / 100"
    by (simp add: effective_score_spec_def ex_ra_def)
  moreover have "effective_score_spec (ex_rb\<lparr>rerankerScore := Some (9 / 10)\<rparr>) = 9 / 10"
    by (simp add: effective_score_spec_def)
  ultimately show ?thesis by (intro conjI)
qed


text \<open>
  Claim C7.  The code falls back to the \<open>originalScore\<close> of a document where the answer of the
  backend is not JSON, or \<open>extractScoreFromResult\<close> returns \<open>null\<close> or throws on it
  (\<open>fallback_when_nothing_extracted\<close>).  It does not where the answer carries a score that is
  not a number: \<open>extractScoreFromResult\<close> looks at the type of the answer and of its first
  element, not at the type of a \<open>score\<close> field, and whatever it returns but \<open>null\<close> becomes the
  score of the document (\<open>unchecked_score_returned\<close>).  For the answer \<open>{"score": "high"}\<close>
  to the second of two documents, the first scored \<open>0.7\<close>, it returns the text, \<open>??\<close> keeps it, and
  the document is returned with the text as its score and not with its \<open>originalScore\<close>
  \<open>0.01\<close>, on every host.
\<close>

theorem reranker_keeps_unchecked_score:
  "extractScoreFromResult (JObj [(''score'', JStr ''high'')]) = Inr (JStr ''high'') \<and>
   parse_score (ex_docs ! 1) (Some (JObj [(''score'', JStr ''high'')])) = JStr ''high'' \<and>
   originalScore (ex_docs ! 1) = Some (1 / 100) \<and>
   rerankWithHuggingFace host ex_cfg ex_backend_high ''q'' ex_docs 20 =
     [\<lparr>rr_id = ''x'', rr_score = JNum (7 / 10), rr_originalScore = Some (2 / 100)\<rparr>,
      \<lparr>rr_id = ''y'', rr_score = JStr ''high'', rr_originalScore = Some (1 / 100)\<rparr>]"
proof -
  have a: "extractScoreFromResult (JObj [(''score'', JStr ''high'')]) = Inr (JStr ''high'')"
    by (simp add: extractScoreFromResult_def)
  have b: "parse_score (ex_docs ! 1) (Some (JObj [(''score'', JStr ''high'')])) = JStr ''high''"
    by (simp add: parse_score_extracted ex_extracted)
  have c: "originalScore (ex_docs ! 1) = Some (1 / 100)" by (simp add: ex_docs_def)
  have key: "js_truthy_string (apiKey ex_cfg)" by (simp add: js_truthy_string_def ex_cfg_def)
  have d: "rerankWithHuggingFace host ex_cfg ex_backend_high ''q'' ex_docs 20 =
     [\<lparr>rr_id = ''x'', rr_score = JNum (7 / 10), rr_originalScore = Some (2 / 100)\<rparr>,
      \<lparr>rr_id = ''y'', rr_score = JStr ''high'', rr_originalScore = Some (1 / 100)\<rparr>]"
  proof -
    have nt: "\<not> (\<exists>r \<in> set (reranked_of ex_docs (hf_scores ex_backend_high ex_docs)).
                   throws_ToPrimitive (rr_score r))"
      by (simp add: ex_high_scores ex_high_reranked)
    have "rerankWithHuggingFace host ex_cfg ex_backend_high ''q'' ex_docs 20 =
          take 20 (js_array_sort host score_compare
                     (reranked_of ex_docs (hf_scores ex_backend_high ex_docs)))"
      using key nt by (simp only: rerankWithHuggingFace_def Let_def simp_thms if_False)
    also have "\<dots> = take 20
        [\<lparr>rr_id = ''x'', rr_score = JNum (7 / 10), rr_originalScore = Some (2 / 100)\<rparr>,
         \<lparr>rr_id = ''y'', rr_score = JStr ''high'', rr_originalScore = Some (1 / 100)\<rparr>]"
      by (simp only: ex_high_scores ex_high_reranked ex_high_sorted)
    finally show ?thesis by simp
  qed
  from a b c d show ?thesis by (intro conjI)
qed


text \<open>
  Claim C8, as amended.  For a query that contains \<open>yesterday\<close> (in any case) and not
  \<open>today\<close>, the time range extracted at the instant \<open>tnow\<close> is the 24-hour window from
  \<open>tnow - 48 h\<close> to \<open>tnow - 24 h\<close>; it becomes the time range of the enriched filters when
  none was given.  Its start is never the midnight that starts the previous calendar day, in
  any time zone.  For the query \<open>fixed bug in parser.ts yesterday\<close> the enriched filters
  hold that window and the one file pattern \<open>**/parser.ts*\<close>.
\<close>

theorem yesterday_window:
  assumes "js_includes (map ascii_fold q) ''yesterday''"
    and "\<not> js_includes (map ascii_fold q) ''today''"
  shows "parseTimeExpression tnow q = Some \<lparr>t_start = tnow - 172800000, t_end = tnow - 86400000\<rparr> \<and>
         timeRange (enrichFilters tnow q None) = Some \<lparr>t_start = tnow - 172800000, t_end = tnow - 86400000\<rparr> \<and>
         tnow - 172800000 \<noteq> t_start (previous_calendar_day_spec tz tnow) \<and>
         enrichFilters tnow ''fixed bug in parser.ts yesterday'' None =
           \<lparr>timeRange = Some \<lparr>t_start = tnow - 172800000, t_end = tnow - 86400000\<rparr>,
            filePatterns = Some [''**/parser.ts*''], languages = None, eventTypes = None,
            f_symbols = None, branches = None, sessions = None\<rparr>"
proof -
  note p = parse_yesterday [OF assms, of tnow]
  have e: "timeRange (enrichFilters tnow q None) = Some \<lparr>t_start = tnow - 172800000, t_end = tnow - 86400000\<rparr>"
    by (simp add: enrichFilters_def p no_filters_def Let_def)
  have n: "tnow - 172800000 \<noteq> t_start (previous_calendar_day_spec tz tnow)"
    using not_previous_day [of tnow tz] by (simp add: previous_calendar_day_spec_def ms_day_def)
  have x: "enrichFilters tnow ''fixed bug in parser.ts yesterday'' None =
           \<lparr>timeRange = Some \<lparr>t_start = tnow - 172800000, t_end = tnow - 86400000\<rparr>,
            filePatterns = Some [''**/parser.ts*''], languages = None, eventTypes = None,
            f_symbols = None, branches = None, sessions = None\<rparr>"
    unfolding enrichFilters_def Let_def ex_query_patterns parse_yesterday [OF ex_query_words]
    by (simp add: no_filters_def nullish_or_def)
  from p e n x show ?thesis by (intro conjI)
qed


theorem yesterday_window_witness:
  "enrichFilters 1000000000000 ''fixed bug in parser.ts yesterday'' None =
     \<lparr>timeRange = Some \<lparr>t_start = 999827200000, t_end = 999913600000\<rparr>,
      filePatterns = Some [''**/parser.ts*''], languages = None, eventTypes = None,
      f_symbols = None, branches = None, sessions = None\<rparr> \<and>
   parseTimeExpression 1000000000000 ''fixed bug in parser.ts yesterday'' =
     Some \<lparr>t_start = 999827200000, t_end = 999913600000\<rparr>"
  using yesterday_window [OF ex_query_words, of 1000000000000 0] by simp


theorem yesterday_window_counterexample:
  "timeRange (enrichFilters 1000000000000 ''fixed bug in parser.ts yesterday'' None) =
     Some \<lparr>t_start = 999827200000, t_end = 999913600000\<rparr> \<and>
   previous_calendar_day_spec 0 1000000000000 =
     \<lparr>t_start = 999907200000, t_end = 999993600000\<rparr>"
proof -
  have "timeRange (enrichFilters 1000000000000 ''fixed bug in parser.ts yesterday'' None) =
     Some \<lparr>t_start = 999827200000, t_end = 999913600000\<rparr>"
    unfolding enrichFilters_def Let_def ex_query_patterns parse_yesterday [OF ex_query_words]
    by (simp add: no_filters_def nullish_or_def)
  moreover have "previous_calendar_day_spec 0 1000000000000 =
     \<lparr>t_start = 999907200000, t_end = 999993600000\<rparr>"
    by (simp add: previous_calendar_day_spec_def local_day_start_def ms_day_def)
  ultimately show ?thesis by (intro conjI)
qed


text \<open>
  Claim C9.  When the metadata store has no record for the change id (\<open>getChange\<close> returns
  \<open>null\<close>), \<open>findSimilar\<close> rejects with the error \<open>Change not found: <id>\<close>, which is not the
  successful empty result.  \<open>search\<close>, in contrast, succeeds with the empty list when both
  retrieval legs come back empty.
\<close>

theorem findSimilar_not_found:
  "(getChange e cid = Inr None \<longrightarrow>
      findSimilar e cid topK = Inl (Error (''Change not found: '' @ cid)) \<and>
      findSimilar e cid topK \<noteq> Inr []) \<and>
   (vectorSearch e (naturalLanguage query) (rerankTopK (search_params query))
        (Some (enrichFilters (now e) (naturalLanguage query) (filters query))) = [] \<and>
    keywordSearch e (naturalLanguage query) (rerankTopK (search_params query)) = [] \<longrightarrow>
      search e query = Inr [])"
  by (simp add: findSimilar_def search_def search_from_legs_empty Let_def)


theorem findSimilar_not_found_witness:
  "getChange ex_env ''nonexistent-id'' = Inr None \<and>
   findSimilar ex_env ''nonexistent-id'' 5 = Inl (Error ''Change not found: nonexistent-id'') \<and>
   search ex_env_empty ex_query = Inr []"
proof -
  have g: "getChange ex_env ''nonexistent-id'' = Inr None" by (simp add: ex_env_fields)
  have v: "vectorSearch ex_env_empty q k f = []" for q k f
    by (simp add: vectorSearch_def ex_env_empty_fields)
  have k: "keywordSearch ex_env_empty q k = []" for q k
    by (simp add: keywordSearch_def ex_env_empty_fields)
  from findSimilar_not_found [where e = ex_env and cid = "''nonexistent-id''" and topK = 5] g
  have "findSimilar ex_env ''nonexistent-id'' 5 = Inl (Error ''Change not found: nonexistent-id'')"
    by simp
  moreover from findSimilar_not_found [where e = ex_env_empty and query = ex_query] v k
  have "search ex_env_empty ex_query = Inr []" by simp
  ultimately show ?thesis using g by (intro conjI)
qed


text \<open>
  Claim C10.  When no term of the query (what is left between white space after the
  characters \<open>' " * ( ) ^ -\<close> are replaced by spaces) is longer than one character,
  \<open>prepareFTSQuery\<close> returns the raw query unchanged, and the lexical store is searched with
  that raw text.  In every other case it returns the non-empty \<open>OR\<close> expression of the quoted
  prefix terms, whose only characters of that class are the quotes and stars it adds.
\<close>

theorem prepareFTSQuery_raw_fallback:
  "((\<forall>t \<in> set (fts_terms query). length t \<le> 1) \<longrightarrow>
      prepareFTSQuery query = query \<and>
      keywordSearch e query topK =
        (case searchChanges e (workspaceId e) query topK of Inl err \<Rightarrow> [] | Inr rs \<Rightarrow> rs)) \<and>
   ((\<exists>t \<in> set (fts_terms query). 1 < length t) \<longrightarrow>
      prepareFTSQuery query =
        js_join '' OR '' (map fts_prefix_term (filter (\<lambda>t. 1 < length t) (fts_terms query))) \<and>
      prepareFTSQuery query \<noteq> [] \<and>
      (\<forall>c \<in> set (prepareFTSQuery query). fts_special c \<longrightarrow> c = CHR 0x22 \<or> c = CHR ''*''))"
proof (intro conjI impI)
  assume a: "\<forall>t \<in> set (fts_terms query). length t \<le> 1"
  then have "filter (\<lambda>t. 1 < length t) (fts_terms query) = []"
    by (auto simp: filter_empty_conv)
  then show p: "prepareFTSQuery query = query" by (simp add: prepareFTSQuery_def)
  show "keywordSearch e query topK =
        (case searchChanges e (workspaceId e) query topK of Inl err \<Rightarrow> [] | Inr rs \<Rightarrow> rs)"
    by (simp add: keywordSearch_def p)
next
  assume a: "\<exists>t \<in> set (fts_terms query). 1 < length t"
  let ?ts = "filter (\<lambda>t. 1 < length t) (fts_terms query)"
  let ?cleaned = "js_join '' OR '' (map fts_prefix_term ?ts)"
  from a have ne: "?ts \<noteq> []" by (auto simp: filter_empty_conv)
  then have "hd (map fts_prefix_term ?ts) \<noteq> []" by (cases ?ts) (simp_all add: fts_prefix_term_def)
  with ne have c: "?cleaned \<noteq> []" by (intro js_join_nonempty) simp_all
  then show p: "prepareFTSQuery query = ?cleaned" by (simp add: prepareFTSQuery_def Let_def)
  from c p show "prepareFTSQuery query \<noteq> []" by simp
  show "\<forall>c \<in> set (prepareFTSQuery query). fts_special c \<longrightarrow> c = CHR 0x22 \<or> c = CHR ''*''"
  proof (intro ballI impI)
    fix c assume c: "c \<in> set (prepareFTSQuery query)" and sp: "fts_special c"
    from c p js_join_chars [of "'' OR ''" "map fts_prefix_term ?ts"]
    consider "c \<in> set '' OR ''" | t where "t \<in> set ?ts" "c \<in> set (fts_prefix_term t)" by auto
    then show "c = CHR 0x22 \<or> c = CHR ''*''"
    proof cases
      case 1
      with sp show ?thesis by (auto simp: fts_special_def)
    next
      case 2
      from 2(1) have "t \<in> set (fts_terms query)" by simp
      with fts_terms_clean sp have "c \<notin> set t" by blast
      with 2(2) show ?thesis by (auto simp: fts_prefix_term_def)
    qed
  qed
qed


theorem prepareFTSQuery_raw_fallback_witness:
  "prepareFTSQuery ''a - (b)'' = ''a - (b)'' \<and>
   keywordSearch ex_env ''a - (b)'' 50 =
     (case searchChanges ex_env (workspaceId ex_env) ''a - (b)'' 50 of Inl err \<Rightarrow> [] | Inr rs \<Rightarrow> rs) \<and>
   prepareFTSQuery ''fix parser'' =
     CHR 0x22 # ''fix'' @ [CHR 0x22] @ ''* OR '' @ [CHR 0x22] @ ''parser'' @ [CHR 0x22, CHR ''*'']"
proof -
  have "\<forall>t \<in> set (fts_terms ''a - (b)''). length t \<le> 1" by (simp add: ex_fts_terms)
  with prepareFTSQuery_raw_fallback [of "''a - (b)''" ex_env 50]
  have a: "prepareFTSQuery ''a - (b)'' = ''a - (b)'' \<and>
   keywordSearch ex_env ''a - (b)'' 50 =
     (case searchChanges ex_env (workspaceId ex_env) ''a - (b)'' 50 of Inl err \<Rightarrow> [] | Inr rs \<Rightarrow> rs)"
    by blast
  have "\<exists>t \<in> set (fts_terms ''fix parser''). 1 < length t" by (simp add: ex_fts_terms2)
  with prepareFTSQuery_raw_fallback [of "''fix parser''" ex_env 50]
  have "prepareFTSQuery ''fix parser'' =
     js_join '' OR '' (map fts_prefix_term (filter (\<lambda>t. 1 < length t) (fts_terms ''fix parser'')))"
    by blast
  then have b: "prepareFTSQuery ''fix parser'' =
     CHR 0x22 # ''fix'' @ [CHR 0x22] @ ''* OR '' @ [CHR 0x22] @ ''parser'' @ [CHR 0x22, CHR ''*'']"
    by (simp add: ex_fts_terms2 fts_prefix_term_def)
  from a b show ?thesis by blast
qed

end
